theory Spec2Isabelle
  imports
    Main
    "HOL-Library.AList"
    "HOL-Library.Multiset"
    "HOL-Library.Sublist"
    "HOL-Library.Char_ord"
    "HOL-Library.List_Lexorder"
    "HOL-Library.Product_Lexorder"
    "HOL-Library.Option_ord"
begin

section \<open>Tool dependency management: data model\<close>

text \<open>
  The development follows \<^verbatim>\<open>lib/galaxy/tools/deps/__init__.py\<close>. A requirement is
  a value with equality by (name, version, type); a \<^verbatim>\<open>ToolRequirements\<close> collection is
  an ordered list of them, unique by value.
\<close>

record tool_requirement =
  req_name :: string
  req_version :: "string option"
  req_type :: string

record container_description =
  cd_identifier :: string
  container_type :: string

text \<open>
  The class of a dependency object, as \<^verbatim>\<open>isinstance\<close> sees it: \<^verbatim>\<open>NullDependency\<close>,
  \<^verbatim>\<open>ContainerDependency\<close>, or any other \<^verbatim>\<open>Dependency\<close>.
\<close>

datatype dependency_class =
  NullDependency_class
  | ContainerDependency_class container_description
  | Dependency_class

record dependency =
  dep_class :: dependency_class
  dep_name :: string
  dep_version :: "string option"
  dep_exact :: bool
  dependency_type :: "string option"
  cacheable :: bool
  resolver_msg :: string
  cache_path :: "string option"

definition isNullDependency :: "dependency \<Rightarrow> bool" where
  "isNullDependency v = (dep_class v = NullDependency_class)"

text \<open>
  Modelled from the spec: the classes \<^verbatim>\<open>NullDependency\<close> and \<^verbatim>\<open>ContainerDependency\<close>
  live in \<^verbatim>\<open>galaxy.tools.deps.resolvers\<close>, which is not among the sources. A Null
  dependency carries the requested name and version; a Container dependency wraps a
  container description and carries the name and version it is given. Neither is
  cacheable. Nothing proved below depends on the remaining attributes chosen here.
\<close>

definition NullDependency :: "string option \<Rightarrow> string \<Rightarrow> dependency" where
  "NullDependency version name =
     \<lparr>dep_class = NullDependency_class, dep_name = name, dep_version = version,
      dep_exact = True, dependency_type = None, cacheable = False,
      resolver_msg = ''Dependency '' @ name @ '' not found.'', cache_path = None\<rparr>"

definition ContainerDependency ::
  "container_description \<Rightarrow> string \<Rightarrow> string option \<Rightarrow> dependency" where
  "ContainerDependency cd name version =
     \<lparr>dep_class = ContainerDependency_class cd, dep_name = name, dep_version = version,
      dep_exact = True, dependency_type = Some (container_type cd), cacheable = False,
      resolver_msg = ''Using container '' @ cd_identifier cd, cache_path = None\<rparr>"

text \<open>
  The keyword arguments the code reads from \<^verbatim>\<open>**kwds\<close> (with \<^verbatim>\<open>search\<close>, which is a
  named parameter of the resolution routine).
\<close>

record kwds =
  kw_index :: "int option"
  kw_install :: bool
  kw_resolver_type :: "string option"
  kw_exact :: bool
  kw_return_null :: bool
  kw_search :: bool
  kw_force_rebuild :: bool
  kw_tool_instance :: bool

datatype error = AssertionError | TypeError | Exception string

text \<open>
  What a whole-set call (\<^verbatim>\<open>resolve_all\<close>, or a container resolver's \<^verbatim>\<open>resolve\<close>) returns:
  a falsy value, a list of dependencies, or one container description.
\<close>

datatype batch_result =
  Falsy
  | Dependencies "dependency list"
  | ContainerDescription container_description

fun truthy :: "batch_result \<Rightarrow> bool" where
  "truthy Falsy = False"
| "truthy (Dependencies ds) = (ds \<noteq> [])"
| "truthy (ContainerDescription cd) = True"

text \<open>
  A resolver is an external plugin; its methods are parameters of the model. Each call
  may raise (\<open>Inl\<close>). \<open>resolve_all\<close> is \<open>None\<close> for a resolver without that attribute.
  The attribute \<^verbatim>\<open>resolve\<close> has two shapes: a container resolver's takes the whole
  requirement set (\<open>resolve_container\<close>), any other resolver's one requirement
  (\<open>resolve\<close>). A call is taken to return a fresh object, so that an assignment to
  \<^verbatim>\<open>dependency.version\<close> touches one entry only.
\<close>

record resolver =
  resolver_type :: string
  isContainerResolver :: bool
  resolve_all :: "(kwds \<Rightarrow> tool_requirement list \<Rightarrow> error + batch_result) option"
  resolve_container :: "kwds \<Rightarrow> tool_requirement list \<Rightarrow> error + batch_result"
  resolve :: "kwds \<Rightarrow> tool_requirement \<Rightarrow> error + dependency"

text \<open>
  The calls made to resolvers, each with the position of the resolver in the chain and
  with what the call returned. \<open>ResolveAll\<close> is the whole-set call of line 186, be it
  \<^verbatim>\<open>resolve_all\<close> or a container resolver's \<^verbatim>\<open>resolve\<close>; \<open>Resolve\<close> is the
  single-requirement call of line 209. The debug lines the engine logs are left out.
\<close>

datatype call =
  ResolveAll nat "error + batch_result"
  | Resolve nat tool_requirement "error + dependency"

fun call_index :: "call \<Rightarrow> nat" where
  "call_index (ResolveAll i a) = i"
| "call_index (Resolve i r a) = i"

type_synonym odict = "(tool_requirement \<times> dependency) list"

text \<open>
  An \<^verbatim>\<open>OrderedDict\<close> is an association list with distinct keys in insertion order;
  \<^verbatim>\<open>d[k] = v\<close> is \<^const>\<open>AList.update\<close>: in place for a key that is present, at the
  end for a new one.
\<close>

definition keys :: "odict \<Rightarrow> tool_requirement list" where
  "keys d = map fst d"

definition values_of :: "odict \<Rightarrow> dependency list" where
  "values_of d = map snd d"

definition startswith :: "string \<Rightarrow> string \<Rightarrow> bool" where
  "startswith s p = (take (length p) s = p)"

section \<open>The resolution engine\<close>

datatype outcome = Raise error | Break odict | Continue odict

text \<open>Line 162: the entries whose value is not a Null dependency.\<close>

definition not_null_items :: "odict \<Rightarrow> odict" where
  "not_null_items d = filter (\<lambda>kv. \<not> isNullDependency (snd kv)) d"

text \<open>
  Lines 174 to 183: the choice of the whole-set routine. \<open>None\<close> is the \<^verbatim>\<open>continue\<close> of
  line 180; \<open>Some None\<close> is \<^verbatim>\<open>resolve = None\<close>.
\<close>

definition choose_resolve ::
  "kwds \<Rightarrow> resolver \<Rightarrow>
   (kwds \<Rightarrow> tool_requirement list \<Rightarrow> error + batch_result) option option" where
  "choose_resolve kw rv =
     (case resolve_all rv of
        Some f \<Rightarrow> Some (Some f)
      | None \<Rightarrow>
          if isContainerResolver rv then
            (if \<not> (startswith (resolver_type rv) ''cached''
                    \<or> startswith (resolver_type rv) ''explicit'')
                \<and> \<not> (kw_search kw \<or> kw_install kw)
             then None
             else Some (Some (resolve_container rv)))
          else Some None)"

text \<open>Lines 192 and 193: a container description stands for every requirement.\<close>

fun batch_dependencies :: "tool_requirement list \<Rightarrow> batch_result \<Rightarrow> dependency list" where
  "batch_dependencies reqs (ContainerDescription cd) =
     map (\<lambda>r. ContainerDependency cd (req_name r) (req_version r)) reqs"
| "batch_dependencies reqs (Dependencies ds) = ds"
| "batch_dependencies reqs Falsy = []"

text \<open>Lines 195 to 197: the loop over \<^verbatim>\<open>zip(resolvable_requirements, dependencies)\<close>.\<close>

fun record_all :: "tool_requirement list \<Rightarrow> dependency list \<Rightarrow> odict \<Rightarrow> odict" where
  "record_all (r # rs) (v # vs) d = record_all rs vs (AList.update r v d)"
| "record_all rs vs d = d"

text \<open>Lines 210 to 219: what one single-requirement answer does to the mapping.\<close>

definition record_one :: "kwds \<Rightarrow> tool_requirement \<Rightarrow> dependency \<Rightarrow> odict \<Rightarrow> odict" where
  "record_one kw r v d =
     (if kw_exact kw \<and> \<not> dep_exact v then d
      else if \<not> isNullDependency v then AList.update r v d
      else if kw_return_null kw then AList.update r (v\<lparr>dep_version := req_version r\<rparr>) d
      else d)"

text \<open>
  Lines 205 to 219: the loop over the requirements. \<open>met\<close> is the snapshot
  \<^verbatim>\<open>_requirement_to_dependency\<close> taken at line 162.
\<close>

fun check_individual ::
  "kwds \<Rightarrow> resolver \<Rightarrow> nat \<Rightarrow> odict \<Rightarrow> tool_requirement list \<Rightarrow> odict \<Rightarrow>
   (error + odict) \<times> call list" where
  "check_individual kw rv i met [] d = (Inr d, [])"
| "check_individual kw rv i met (r # rs) d =
     (if r \<in> set (keys met) then check_individual kw rv i met rs d
      else
        (case resolve rv kw r of
           Inl e \<Rightarrow> (Inl e, [Resolve i r (Inl e)])
         | Inr v \<Rightarrow>
             (case check_individual kw rv i met rs (record_one kw r v d) of
                (res, tr) \<Rightarrow> (res, Resolve i r (Inr v) # tr))))"

text \<open>Lines 202 to 219: the per-requirement path, for resolvers that are no container resolvers.\<close>

definition individual_path ::
  "kwds \<Rightarrow> tool_requirement list \<Rightarrow> nat \<Rightarrow> resolver \<Rightarrow> odict \<Rightarrow> odict \<Rightarrow>
   outcome \<times> call list" where
  "individual_path kw reqs i rv met d =
     (if \<not> isContainerResolver rv then
        (case check_individual kw rv i met reqs d of
           (Inl e, tr) \<Rightarrow> (Raise e, tr)
         | (Inr d', tr) \<Rightarrow> (Continue d', tr))
      else (Continue d, []))"

text \<open>Lines 156 to 219: the body of the loop over the chain, for the resolver at position \<open>i\<close>.\<close>

definition resolver_body ::
  "kwds \<Rightarrow> tool_requirement list \<Rightarrow> nat \<Rightarrow> resolver \<Rightarrow> odict \<Rightarrow> outcome \<times> call list" where
  "resolver_body kw reqs i rv d =
     (if kw_index kw \<noteq> None \<and> Some (int i) \<noteq> kw_index kw then (Continue d, [])
      else if kw_resolver_type kw \<noteq> None \<and> Some (resolver_type rv) \<noteq> kw_resolver_type kw
        then (Continue d, [])
      else
        let met = not_null_items d in
        if length met = length reqs then (Break d, [])
        else if startswith (resolver_type rv) ''build_mulled'' \<and> \<not> kw_install kw
          then (Continue d, [])
        else
          let all_unmet = (length met = 0) in
          (case choose_resolve kw rv of
             None \<Rightarrow> (Continue d, [])
           | Some None \<Rightarrow> individual_path kw reqs i rv met d
           | Some (Some f) \<Rightarrow>
               if all_unmet then
                 (case f kw reqs of
                    Inl e \<Rightarrow> (Raise e, [ResolveAll i (Inl e)])
                  | Inr b \<Rightarrow>
                      if truthy b then
                        (if length (batch_dependencies reqs b) = length reqs
                         then (Break (record_all reqs (batch_dependencies reqs b) d),
                               [ResolveAll i (Inr b)])
                         else (Raise AssertionError, [ResolveAll i (Inr b)]))
                      else
                        (case individual_path kw reqs i rv met d of
                           (out, tr) \<Rightarrow> (out, ResolveAll i (Inr b) # tr)))
               else individual_path kw reqs i rv met d))"

text \<open>Line 154: the loop over \<^verbatim>\<open>enumerate(self.dependency_resolvers)\<close>, from position \<open>i\<close>.\<close>

fun resolver_loop ::
  "kwds \<Rightarrow> tool_requirement list \<Rightarrow> nat \<Rightarrow> resolver list \<Rightarrow> odict \<Rightarrow>
   (error + odict) \<times> call list" where
  "resolver_loop kw reqs i [] d = (Inr d, [])"
| "resolver_loop kw reqs i (rv # rest) d =
     (case resolver_body kw reqs i rv d of
        (Raise e, tr) \<Rightarrow> (Inl e, tr)
      | (Break d', tr) \<Rightarrow> (Inr d', tr)
      | (Continue d', tr) \<Rightarrow>
          (case resolver_loop kw reqs (Suc i) rest d' of
             (res, tr') \<Rightarrow> (res, tr @ tr')))"

text \<open>
  Modelled from the spec: \<^verbatim>\<open>ToolRequirements\<close> (module \<^verbatim>\<open>requirements\<close>, not among the
  sources) is an ordered collection, unique by value, the first occurrence kept; its
  view \<^verbatim>\<open>resolvable\<close> keeps the requirements the engine may act on. Which requirement
  types those are is a parameter.
\<close>

fun ToolRequirements :: "tool_requirement list \<Rightarrow> tool_requirement list" where
  "ToolRequirements [] = []"
| "ToolRequirements (r # rs) = r # filter (\<lambda>x. x \<noteq> r) (ToolRequirements rs)"

definition resolvable ::
  "(tool_requirement \<Rightarrow> bool) \<Rightarrow> tool_requirement list \<Rightarrow> tool_requirement list" where
  "resolvable is_resolvable requirements = filter is_resolvable requirements"

text \<open>
  The manager: its chain, the cache root read at construction (line 267), and the
  application configuration, a dictionary or an object with attributes, which may carry
  a further dictionary \<^verbatim>\<open>config_dict\<close>. A configured value is kept as its truth value,
  the only way line 296 reads one.
\<close>

record dependency_manager =
  dependency_resolvers :: "resolver list"
  tool_dependency_cache_dir :: string
  app_config :: "string \<rightharpoonup> bool"
  config_dict :: "(string \<rightharpoonup> bool) option"

text \<open>Lines 112 to 122.\<close>

definition get_app_option :: "dependency_manager \<Rightarrow> string \<Rightarrow> bool \<Rightarrow> bool" where
  "get_app_option mgr key dflt =
     (case app_config mgr key of
        Some v \<Rightarrow> v
      | None \<Rightarrow>
          (case config_dict mgr of
             Some cd \<Rightarrow> (case cd key of Some v \<Rightarrow> v | None \<Rightarrow> dflt)
           | None \<Rightarrow> dflt))"

text \<open>Lines 142 to 221. The result comes with the calls made to resolvers, in order.\<close>

definition requirements_to_dependencies_dict ::
  "(tool_requirement \<Rightarrow> bool) \<Rightarrow> dependency_manager \<Rightarrow> tool_requirement list \<Rightarrow> kwds \<Rightarrow>
   (error + odict) \<times> call list" where
  "requirements_to_dependencies_dict is_resolvable mgr requirements kw =
     resolver_loop kw (resolvable is_resolvable requirements) 0 (dependency_resolvers mgr) []"

subsection \<open>Reading the calls\<close>

text \<open>
  The requirements that one call leaves an entry for, read from what the call returned:
  a truthy whole-set answer of the right length records every requirement, a
  single-requirement answer records its requirement unless it fails the exactness
  filter or is a Null dependency that is not asked for.
\<close>

fun recorded_by :: "kwds \<Rightarrow> tool_requirement list \<Rightarrow> call \<Rightarrow> tool_requirement list" where
  "recorded_by kw reqs (ResolveAll i (Inr b)) =
     (if truthy b \<and> length (batch_dependencies reqs b) = length reqs then reqs else [])"
| "recorded_by kw reqs (ResolveAll i (Inl e)) = []"
| "recorded_by kw reqs (Resolve i r (Inr v)) =
     (if kw_exact kw \<and> \<not> dep_exact v then []
      else if \<not> isNullDependency v \<or> kw_return_null kw then [r]
      else [])"
| "recorded_by kw reqs (Resolve i r (Inl e)) = []"

definition recorded :: "kwds \<Rightarrow> tool_requirement list \<Rightarrow> call list \<Rightarrow> tool_requirement list" where
  "recorded kw reqs tr = concat (map (recorded_by kw reqs) tr)"

text \<open>Keys in order of first insertion: a key that is present keeps its place.\<close>

definition insert_key :: "tool_requirement \<Rightarrow> tool_requirement list \<Rightarrow> tool_requirement list" where
  "insert_key r ks = (if r \<in> set ks then ks else ks @ [r])"

definition insertion_order ::
  "tool_requirement list \<Rightarrow> tool_requirement list \<Rightarrow> tool_requirement list" where
  "insertion_order rs ks = fold insert_key rs ks"

text \<open>Lines 226 to 233.\<close>

definition find_dep ::
  "(tool_requirement \<Rightarrow> bool) \<Rightarrow> dependency_manager \<Rightarrow> string \<Rightarrow> string option \<Rightarrow> string \<Rightarrow>
   kwds \<Rightarrow> (error + dependency) \<times> call list" where
  "find_dep is_resolvable mgr name version type kw =
     (let requirements =
            ToolRequirements [\<lparr>req_name = name, req_version = version, req_type = type\<rparr>]
      in case requirements_to_dependencies_dict is_resolvable mgr requirements kw of
           (Inl e, tr) \<Rightarrow> (Inl e, tr)
         | (Inr dep_dict, tr) \<Rightarrow>
             (case values_of dep_dict of
                v # vs \<Rightarrow> (Inr v, tr)
              | [] \<Rightarrow> (Inr (NullDependency version name), tr)))"

text \<open>Lines 324 to 340: the manager used when dependency management is disabled.\<close>

definition NullDependencyManager :: dependency_manager where
  "NullDependencyManager =
     \<lparr>dependency_resolvers = [], tool_dependency_cache_dir = [],
      app_config = Map.empty, config_dict = None\<rparr>"

definition NullDependencyManager_find_dep ::
  "string \<Rightarrow> string option \<Rightarrow> string \<Rightarrow> kwds \<Rightarrow> dependency" where
  "NullDependencyManager_find_dep name version type kw = NullDependency version name"

section \<open>The caching layer\<close>

text \<open>
  What the caching layer calls outside this module is a parameter: the digest
  (\<^verbatim>\<open>hash_util.new_secure_hash\<close>), \<^verbatim>\<open>json.dumps\<close>, the path arithmetic
  \<^verbatim>\<open>os.path.abspath(os.path.join(root, digest))\<close>, \<^verbatim>\<open>shutil.rmtree\<close> and the build and
  activation routines of a dependency. The file system is the set of paths that exist;
  \<^verbatim>\<open>rmtree\<close> and a build routine change it and may raise. The built-in \<^verbatim>\<open>sorted\<close> is
  modelled with the comparisons of Python 3.
\<close>

type_synonym dependency_tuple = "string \<times> string option \<times> bool \<times> string option"

record environment =
  new_secure_hash :: "string \<Rightarrow> string"
  json_dumps :: "dependency_tuple list \<Rightarrow> string"
  abspath_join :: "string \<Rightarrow> string \<Rightarrow> string"
  rmtree :: "string \<Rightarrow> string set \<Rightarrow> error option \<times> string set"
  dep_build_cache :: "dependency \<Rightarrow> string \<Rightarrow> string set \<Rightarrow> error option \<times> string set"
  dep_shell_commands :: "dependency \<Rightarrow> string list"

text \<open>What the caching layer does to the outside, in order.\<close>

datatype event =
  ResolverCall call
  | SetToolDependencies "dependency list"
  | Rmtree string
  | DepBuildCache dependency string
  | SetCachePath dependency string
  | ShellCommands dependency
  | LogWarning string
  | LogDebug string

text \<open>Line 306: the tuple taken from each dependency.\<close>

definition dep_tuple :: "dependency \<Rightarrow> dependency_tuple" where
  "dep_tuple dep = (dep_name dep, dep_version dep, dep_exact dep, dependency_type dep)"

text \<open>
  Line 307, \<^verbatim>\<open>sorted\<close>. Python compares two tuples at the first component where they
  differ: strings by their characters, \<^verbatim>\<open>False\<close> before \<^verbatim>\<open>True\<close>; \<^verbatim>\<open>None\<close> against a
  string raises \<^verbatim>\<open>TypeError\<close>. Two tuples can be compared when they are equal or differ
  first at a component that is not \<^verbatim>\<open>None\<close> on one side and a string on the other.
\<close>

fun comparable :: "dependency_tuple \<Rightarrow> dependency_tuple \<Rightarrow> bool" where
  "comparable (n1, v1, e1, t1) (n2, v2, e2, t2) =
     (if n1 \<noteq> n2 then True
      else if v1 \<noteq> v2 then v1 \<noteq> None \<and> v2 \<noteq> None
      else if e1 \<noteq> e2 then True
      else if t1 \<noteq> t2 then t1 \<noteq> None \<and> t2 \<noteq> None
      else True)"

text \<open>
  A list whose tuples can all be compared with each other is sorted in the
  lexicographic order (\<^verbatim>\<open>None\<close> never meets a string there, so its place in the order
  of \<^typ>\<open>string option\<close> plays no part). A list with two tuples that cannot be compared
  raises: among the tuples that agree with them up to the offending component, those
  with \<^verbatim>\<open>None\<close> and those with a string there are neighbours somewhere in the sorted
  list, and a comparison sort has to compare neighbours.
\<close>

definition py_sorted :: "dependency_tuple list \<Rightarrow> error + dependency_tuple list" where
  "py_sorted ts =
     (if list_all (\<lambda>x. list_all (comparable x) ts) ts then Inr (sort ts) else Inl TypeError)"

text \<open>Lines 304 to 308.\<close>

definition hash_dependencies :: "environment \<Rightarrow> dependency list \<Rightarrow> error + string" where
  "hash_dependencies env resolved_dependencies =
     (let tuples = map dep_tuple resolved_dependencies in
      case py_sorted tuples of
        Inl e \<Rightarrow> Inl e
      | Inr sorted_tuples \<Rightarrow>
          let hash_str = json_dumps env sorted_tuples
          in Inr (take 8 (new_secure_hash env hash_str)))"

text \<open>The characters of a hexadecimal digest, as \<^verbatim>\<open>hexdigest\<close> writes them.\<close>

definition is_hex :: "char \<Rightarrow> bool" where
  "is_hex c = (c \<in> set ''0123456789abcdef'')"

text \<open>Lines 310 to 321.\<close>

definition get_hashed_dependencies_path ::
  "environment \<Rightarrow> dependency_manager \<Rightarrow> dependency list \<Rightarrow> error + string" where
  "get_hashed_dependencies_path env mgr resolved_dependencies =
     (case hash_dependencies env resolved_dependencies of
        Inl e \<Rightarrow> Inl e
      | Inr req_hashes \<Rightarrow> Inr (abspath_join env (tool_dependency_cache_dir mgr) req_hashes))"

text \<open>Lines 129 to 140; \<^verbatim>\<open>to_dict\<close> of a dependency is kept as the dependency.\<close>

definition requirements_to_dependencies ::
  "(tool_requirement \<Rightarrow> bool) \<Rightarrow> dependency_manager \<Rightarrow> tool_requirement list \<Rightarrow> kwds \<Rightarrow>
   (error + odict) \<times> event list" where
  "requirements_to_dependencies is_resolvable mgr requirements kw =
     (case requirements_to_dependencies_dict is_resolvable mgr requirements kw of
        (Inl e, tr) \<Rightarrow> (Inl e, map ResolverCall tr)
      | (Inr d, tr) \<Rightarrow>
          (Inr d, map ResolverCall tr
                  @ (if kw_tool_instance kw then [SetToolDependencies (values_of d)] else [])))"

text \<open>Line 283: the build routine of each cacheable dependency, in order.\<close>

fun build_each ::
  "environment \<Rightarrow> string \<Rightarrow> dependency list \<Rightarrow> string set \<Rightarrow>
   (error + unit) \<times> string set \<times> event list" where
  "build_each env dir [] fs = (Inr (), fs, [])"
| "build_each env dir (dep # deps) fs =
     (case dep_build_cache env dep dir fs of
        (Some e, fs') \<Rightarrow> (Inl e, fs', [DepBuildCache dep dir])
      | (None, fs') \<Rightarrow>
          (case build_each env dir deps fs' of
             (res, fs'', evs) \<Rightarrow> (res, fs'', DepBuildCache dep dir # evs)))"

text \<open>Lines 269 to 283.\<close>

definition build_cache ::
  "environment \<Rightarrow> (tool_requirement \<Rightarrow> bool) \<Rightarrow> dependency_manager \<Rightarrow> tool_requirement list \<Rightarrow>
   kwds \<Rightarrow> string set \<Rightarrow> (error + unit) \<times> string set \<times> event list" where
  "build_cache env is_resolvable mgr requirements kw fs =
     (case requirements_to_dependencies is_resolvable mgr requirements kw of
        (Inl e, evs) \<Rightarrow> (Inl e, fs, evs)
      | (Inr resolved_dependencies, evs) \<Rightarrow>
          let cacheable_dependencies = filter cacheable (values_of resolved_dependencies)
          in
          (case get_hashed_dependencies_path env mgr cacheable_dependencies of
             Inl e \<Rightarrow> (Inl e, fs, evs)
           | Inr hashed_dependencies_dir \<Rightarrow>
               if hashed_dependencies_dir \<in> fs then
                 (if kw_force_rebuild kw then
                    (case rmtree env hashed_dependencies_dir fs of
                       (Some e, fs') \<Rightarrow>
                         (Inl e, fs',
                          evs @ [Rmtree hashed_dependencies_dir,
                                 LogWarning (''Could not delete cached dependencies directory ''
                                             @ [CHR 0x27] @ hashed_dependencies_dir @ [CHR 0x27])])
                     | (None, fs') \<Rightarrow>
                         (case build_each env hashed_dependencies_dir cacheable_dependencies fs' of
                            (res, fs'', evs') \<Rightarrow>
                              (res, fs'', evs @ Rmtree hashed_dependencies_dir # evs')))
                  else
                    (Inr (), fs,
                     evs @ [LogDebug (''Cached dependencies directory '' @ [CHR 0x27]
                                      @ hashed_dependencies_dir @ [CHR 0x27]
                                      @ '' already exists, skipping build'')]))
               else
                 (case build_each env hashed_dependencies_dir cacheable_dependencies fs of
                    (res, fs', evs') \<Rightarrow> (res, fs', evs @ evs'))))"

text \<open>
  Lines 285 to 302. \<^verbatim>\<open>set_cache_path\<close> stores the path in the dependency object, which
  the later \<^verbatim>\<open>shell_commands\<close> call of the same object sees.
\<close>

definition set_cache_path :: "string \<Rightarrow> dependency \<Rightarrow> dependency" where
  "set_cache_path dir dep = dep\<lparr>cache_path := Some dir\<rparr>"

definition dependency_shell_commands ::
  "environment \<Rightarrow> (tool_requirement \<Rightarrow> bool) \<Rightarrow> dependency_manager \<Rightarrow> tool_requirement list \<Rightarrow>
   kwds \<Rightarrow> string set \<Rightarrow> (error + string list list) \<times> string set \<times> event list" where
  "dependency_shell_commands env is_resolvable mgr requirements kw fs =
     (case requirements_to_dependencies is_resolvable mgr requirements kw of
        (Inl e, evs) \<Rightarrow> (Inl e, fs, evs)
      | (Inr resolved_dependencies, evs) \<Rightarrow>
          let cacheable_dependencies = filter cacheable (values_of resolved_dependencies)
          in
          (case get_hashed_dependencies_path env mgr cacheable_dependencies of
             Inl e \<Rightarrow> (Inl e, fs, evs)
           | Inr hashed_dependencies_dir \<Rightarrow>
               let (built, fs1, evs1) =
                     (if hashed_dependencies_dir \<notin> fs
                         \<and> get_app_option mgr ''precache_dependencies'' False
                      then build_cache env is_resolvable mgr requirements kw fs
                      else (Inr (), fs, []))
               in
               (case built of
                  Inl e \<Rightarrow> (Inl e, fs1, evs @ evs1)
                | Inr u \<Rightarrow>
                    let pointed = (hashed_dependencies_dir \<in> fs1);
                        deps = map (\<lambda>dep. if pointed \<and> cacheable dep
                                           then set_cache_path hashed_dependencies_dir dep
                                           else dep)
                                   (values_of resolved_dependencies);
                        evs2 = (if pointed
                                then map (\<lambda>dep. SetCachePath dep hashed_dependencies_dir)
                                         cacheable_dependencies
                                else [])
                    in (Inr (map (dep_shell_commands env) deps), fs1,
                        evs @ evs1 @ evs2 @ map ShellCommands deps))))"

section \<open>Example inputs\<close>

text \<open>
  Two requirements, a few resolvers and a chain or two, on which the theorems below are
  run.
\<close>

definition samtools :: tool_requirement where
  "samtools = \<lparr>req_name = ''samtools'', req_version = Some ''1.9'', req_type = ''package''\<rparr>"

text \<open>The same package once more, without a version.\<close>

definition samtools_unversioned :: tool_requirement where
  "samtools_unversioned = \<lparr>req_name = ''samtools'', req_version = None, req_type = ''package''\<rparr>"

definition bwa :: tool_requirement where
  "bwa = \<lparr>req_name = ''bwa'', req_version = None, req_type = ''package''\<rparr>"

definition package_or_environment :: "tool_requirement \<Rightarrow> bool" where
  "package_or_environment r = (req_type r = ''package'' \<or> req_type r = ''set_environment'')"

definition package_dependency :: "string \<Rightarrow> tool_requirement \<Rightarrow> bool \<Rightarrow> dependency" where
  "package_dependency msg r ex =
     \<lparr>dep_class = Dependency_class, dep_name = req_name r, dep_version = req_version r,
      dep_exact = ex, dependency_type = Some ''conda'', cacheable = True,
      resolver_msg = msg, cache_path = None\<rparr>"

definition item_resolver ::
  "string \<Rightarrow> (kwds \<Rightarrow> tool_requirement \<Rightarrow> error + dependency) \<Rightarrow> resolver" where
  "item_resolver t f =
     \<lparr>resolver_type = t, isContainerResolver = False, resolve_all = None,
      resolve_container = (\<lambda>kw rs. Inr Falsy), resolve = f\<rparr>"

text \<open>A resolver that knows \<open>bwa\<close> only, and one that answers anything, inexactly.\<close>

definition only_bwa :: resolver where
  "only_bwa = item_resolver ''galaxy_packages''
     (\<lambda>kw r. if req_name r = ''bwa'' then Inr (package_dependency ''A'' r True)
             else Inr (NullDependency None (req_name r)))"

definition anything :: resolver where
  "anything = item_resolver ''conda'' (\<lambda>kw r. Inr (package_dependency ''B'' r False))"

text \<open>A resolver with \<^verbatim>\<open>resolve_all\<close>, answering every requirement inexactly.\<close>

definition merged :: resolver where
  "merged =
     \<lparr>resolver_type = ''conda'', isContainerResolver = False,
      resolve_all = Some (\<lambda>kw rs. Inr (Dependencies (map (\<lambda>r. package_dependency ''M'' r False) rs))),
      resolve_container = (\<lambda>kw rs. Inr Falsy),
      resolve = (\<lambda>kw r. Inr (NullDependency None (req_name r)))\<rparr>"

definition no_kwds :: kwds where
  "no_kwds =
     \<lparr>kw_index = None, kw_install = False, kw_resolver_type = None, kw_exact = False,
      kw_return_null = False, kw_search = False, kw_force_rebuild = False,
      kw_tool_instance = False\<rparr>"

definition manager_of :: "resolver list \<Rightarrow> dependency_manager" where
  "manager_of chain =
     \<lparr>dependency_resolvers = chain, tool_dependency_cache_dir = ''/cache'',
      app_config = Map.empty, config_dict = None\<rparr>"

definition exact_kwds :: kwds where
  "exact_kwds = no_kwds\<lparr>kw_exact := True\<rparr>"


text \<open>
  An environment for the caching layer: a stand-in digest of forty hexadecimal
  characters, a serialiser, path joining by a slash, a removal that succeeds, and build
  routines that create the directory they are given.
\<close>

definition example_digest :: "string \<Rightarrow> string" where
  "example_digest s = replicate 40 (''0123456789abcdef'' ! (length s mod 16))"

definition example_dumps :: "dependency_tuple list \<Rightarrow> string" where
  "example_dumps ts = concat (map (\<lambda>t. fst t @ '','') ts)"

definition example_env :: environment where
  "example_env =
     \<lparr>new_secure_hash = example_digest, json_dumps = example_dumps,
      abspath_join = (\<lambda>root h. root @ ''/'' @ h),
      rmtree = (\<lambda>p fs. (None, fs - {p})),
      dep_build_cache = (\<lambda>dep p fs. (None, insert p fs)),
      dep_shell_commands = (\<lambda>dep. [''source '' @ (case cache_path dep of Some p \<Rightarrow> p | None \<Rightarrow> dep_name dep)])\<rparr>"

text \<open>The same environment on a file system where nothing can be removed.\<close>

definition readonly_env :: environment where
  "readonly_env = example_env\<lparr>rmtree := (\<lambda>p fs. (Some (Exception ''Permission denied''), fs))\<rparr>"

definition force_kwds :: kwds where
  "force_kwds = no_kwds\<lparr>kw_force_rebuild := True\<rparr>"

definition precaching_manager :: "resolver list \<Rightarrow> dependency_manager" where
  "precaching_manager chain = (manager_of chain)\<lparr>app_config := [''precache_dependencies'' \<mapsto> True]\<rparr>"

text \<open>What the chain of \<open>anything\<close> alone resolves the two requirements to, and its calls.\<close>

definition example_resolved :: odict where
  "example_resolved =
     [(samtools, package_dependency ''B'' samtools False),
      (bwa, package_dependency ''B'' bwa False)]"

definition example_calls :: "event list" where
  "example_calls =
     [ResolverCall (Resolve 0 samtools (Inr (package_dependency ''B'' samtools False))),
      ResolverCall (Resolve 0 bwa (Inr (package_dependency ''B'' bwa False)))]"


section \<open>Properties of the resolution engine\<close>

subsection \<open>Keys, calls and lookups\<close>

lemma keys_update:
  "keys (AList.update r v d) = insert_key r (keys d)"
  by (simp add: keys_def update_keys insert_key_def)

lemma keys_record_one:
  "keys (record_one kw r v d) = insertion_order (recorded_by kw reqs (Resolve i r (Inr v))) (keys d)"
  by (simp add: record_one_def keys_update insertion_order_def)

lemma insertion_order_append:
  "insertion_order (xs @ ys) ks = insertion_order ys (insertion_order xs ks)"
  by (simp add: insertion_order_def)

lemma recorded_append: "recorded kw reqs (xs @ ys) = recorded kw reqs xs @ recorded kw reqs ys"
  by (simp add: recorded_def)

lemma recorded_Cons: "recorded kw reqs (c # cs) = recorded_by kw reqs c @ recorded kw reqs cs"
  by (simp add: recorded_def)

lemma recorded_Nil: "recorded kw reqs [] = []"
  by (simp add: recorded_def)

lemma keys_record_all:
  "length vs = length rs \<Longrightarrow> keys (record_all rs vs d) = insertion_order rs (keys d)"
proof (induction rs vs d rule: record_all.induct)
  case (1 r rs v vs d)
  then show ?case by (simp add: keys_update insertion_order_def)
qed (simp_all add: insertion_order_def)

lemma check_individual_keys:
  "check_individual kw rv i met rs d = (Inr d', tr) \<Longrightarrow>
   keys d' = insertion_order (recorded kw reqs tr) (keys d)"
proof (induction rs arbitrary: d d' tr)
  case Nil
  then show ?case by (simp add: recorded_Nil insertion_order_def)
next
  case (Cons r rs)
  show ?case
  proof (cases "r \<in> set (keys met)")
    case True
    with Cons show ?thesis by simp
  next
    case False
    show ?thesis
    proof (cases "resolve rv kw r")
      case (Inl e)
      with False Cons.prems show ?thesis by simp
    next
      case (Inr v)
      obtain res tr' where rest: "check_individual kw rv i met rs (record_one kw r v d) = (res, tr')"
        by (cases "check_individual kw rv i met rs (record_one kw r v d)")
      with False Inr Cons.prems have eq: "res = Inr d'" "tr = Resolve i r (Inr v) # tr'"
        by simp_all
      from Cons.IH [OF rest [unfolded eq(1)]]
      show ?thesis
        unfolding eq(2) recorded_Cons insertion_order_append
        by (simp add: keys_record_one [of kw r v d reqs i])
    qed
  qed
qed

lemma individual_path_keys:
  "individual_path kw reqs i rv met d = (out, tr) \<Longrightarrow> out = Break d' \<or> out = Continue d' \<Longrightarrow>
   keys d' = insertion_order (recorded kw reqs tr) (keys d)"
  by (auto simp: individual_path_def recorded_Nil insertion_order_def
      split: if_splits prod.splits sum.splits dest: check_individual_keys [where reqs = reqs])

lemma resolver_body_keys:
  "resolver_body kw reqs i rv d = (out, tr) \<Longrightarrow> out = Break d' \<or> out = Continue d' \<Longrightarrow>
   keys d' = insertion_order (recorded kw reqs tr) (keys d)"
  unfolding resolver_body_def Let_def
  by (auto simp: recorded_Nil recorded_Cons insertion_order_def keys_record_all
      split: if_splits option.splits sum.splits prod.splits
      dest: individual_path_keys [where d' = d'])

lemma resolver_loop_keys:
  "resolver_loop kw reqs i chain d = (Inr d', tr) \<Longrightarrow>
   keys d' = insertion_order (recorded kw reqs tr) (keys d)"
proof (induction chain arbitrary: i d tr)
  case Nil
  then show ?case by (simp add: recorded_Nil insertion_order_def)
next
  case (Cons rv rest)
  obtain out tr1 where body: "resolver_body kw reqs i rv d = (out, tr1)"
    by (cases "resolver_body kw reqs i rv d")
  show ?case
  proof (cases out)
    case (Raise e)
    with body Cons.prems show ?thesis by simp
  next
    case (Break d1)
    with body Cons.prems have "d1 = d'" "tr = tr1" by simp_all
    with body Break show ?thesis by (simp add: resolver_body_keys)
  next
    case (Continue d1)
    obtain res tr2 where rest: "resolver_loop kw reqs (Suc i) rest d1 = (res, tr2)"
      by (cases "resolver_loop kw reqs (Suc i) rest d1")
    with body Continue Cons.prems have eq: "res = Inr d'" "tr = tr1 @ tr2" by simp_all
    from resolver_body_keys [OF body, of d1] Continue
    have k1: "keys d1 = insertion_order (recorded kw reqs tr1) (keys d)" by simp
    from Cons.IH [OF rest [unfolded eq(1)]] k1
    show ?thesis unfolding eq(2) by (simp add: recorded_append insertion_order_append)
  qed
qed

lemma check_individual_events:
  "check_individual kw rv i met rs d = (res, tr) \<Longrightarrow> c \<in> set tr \<Longrightarrow>
   \<exists>r. c = Resolve i r (resolve rv kw r) \<and> r \<in> set rs \<and> r \<notin> set (keys met)"
proof (induction rs arbitrary: d res tr)
  case Nil
  then show ?case by simp
next
  case (Cons r rs)
  show ?case
  proof (cases "r \<in> set (keys met)")
    case True
    with Cons.prems have "check_individual kw rv i met rs d = (res, tr)" by simp
    from Cons.IH [OF this Cons.prems(2)] show ?thesis by auto
  next
    case False
    show ?thesis
    proof (cases "resolve rv kw r")
      case (Inl e)
      with False Cons.prems show ?thesis by auto
    next
      case (Inr v)
      obtain res' tr' where rest: "check_individual kw rv i met rs (record_one kw r v d) = (res', tr')"
        by (cases "check_individual kw rv i met rs (record_one kw r v d)")
      with False Inr Cons.prems have eq: "tr = Resolve i r (Inr v) # tr'" by simp
      show ?thesis
      proof (cases "c = Resolve i r (Inr v)")
        case True
        with False Inr show ?thesis by auto
      next
        case False
        with eq Cons.prems(2) have "c \<in> set tr'" by simp
        from Cons.IH [OF rest this] show ?thesis by auto
      qed
    qed
  qed
qed

lemma individual_path_events:
  "individual_path kw reqs i rv met d = (out, tr) \<Longrightarrow> c \<in> set tr \<Longrightarrow>
   \<exists>r. c = Resolve i r (resolve rv kw r) \<and> r \<in> set reqs \<and> r \<notin> set (keys met)
       \<and> \<not> isContainerResolver rv"
  by (auto simp: individual_path_def split: if_splits prod.splits sum.splits
      dest: check_individual_events)

lemma resolver_body_events:
  "resolver_body kw reqs i rv d = (out, tr) \<Longrightarrow> c \<in> set tr \<Longrightarrow>
   (\<exists>r. c = Resolve i r (resolve rv kw r) \<and> r \<in> set reqs
        \<and> r \<notin> set (keys (not_null_items d)) \<and> \<not> isContainerResolver rv)
   \<or> (\<exists>f. c = ResolveAll i (f kw reqs) \<and> choose_resolve kw rv = Some (Some f)
        \<and> not_null_items d = [])"
  unfolding resolver_body_def Let_def
  by (auto split: if_splits option.splits sum.splits prod.splits
      dest: individual_path_events)

lemma resolver_body_index:
  "resolver_body kw reqs i rv d = (out, tr) \<Longrightarrow> c \<in> set tr \<Longrightarrow> call_index c = i"
  by (auto dest: resolver_body_events)

lemma resolver_loop_index:
  "resolver_loop kw reqs i chain d = (res, tr) \<Longrightarrow> c \<in> set tr \<Longrightarrow>
   i \<le> call_index c \<and> call_index c < i + length chain"
proof (induction chain arbitrary: i d res tr)
  case Nil
  then show ?case by simp
next
  case (Cons rv rest)
  obtain out tr1 where body: "resolver_body kw reqs i rv d = (out, tr1)"
    by (cases "resolver_body kw reqs i rv d")
  show ?case
  proof (cases out)
    case (Raise e)
    with body Cons.prems have "tr = tr1" by simp
    with body Cons.prems show ?thesis by (auto dest: resolver_body_index)
  next
    case (Break d1)
    with body Cons.prems have "tr = tr1" by simp
    with body Cons.prems show ?thesis by (auto dest: resolver_body_index)
  next
    case (Continue d1)
    obtain res2 tr2 where rest: "resolver_loop kw reqs (Suc i) rest d1 = (res2, tr2)"
      by (cases "resolver_loop kw reqs (Suc i) rest d1")
    with body Continue Cons.prems have eq: "tr = tr1 @ tr2" by simp
    with Cons.prems(2) consider "c \<in> set tr1" | "c \<in> set tr2" by auto
    then show ?thesis
    proof cases
      case 1
      with body show ?thesis by (auto dest: resolver_body_index)
    next
      case 2
      from Cons.IH [OF rest 2] show ?thesis by simp
    qed
  qed
qed

lemma map_of_record_one:
  "map_of (record_one kw r v d) R =
     (if R = r \<and> \<not> (kw_exact kw \<and> \<not> dep_exact v)
          \<and> (\<not> isNullDependency v \<or> kw_return_null kw)
      then Some (if isNullDependency v then v\<lparr>dep_version := req_version r\<rparr> else v)
      else map_of d R)"
  by (auto simp add: record_one_def update_conv')

lemma check_individual_other:
  "check_individual kw rv i met rs d = (Inr d', tr) \<Longrightarrow> R \<notin> set rs \<or> R \<in> set (keys met) \<Longrightarrow>
   map_of d' R = map_of d R"
proof (induction rs arbitrary: d tr)
  case Nil
  then show ?case by simp
next
  case (Cons r rs)
  show ?case
  proof (cases "r \<in> set (keys met)")
    case True
    with Cons show ?thesis by auto
  next
    case False
    with Cons.prems(2) have ne: "R \<noteq> r" by auto
    show ?thesis
    proof (cases "resolve rv kw r")
      case (Inl e)
      with False Cons.prems show ?thesis by simp
    next
      case (Inr v)
      obtain res' tr' where rest: "check_individual kw rv i met rs (record_one kw r v d) = (res', tr')"
        by (cases "check_individual kw rv i met rs (record_one kw r v d)")
      with False Inr Cons.prems have eq: "res' = Inr d'" by simp
      from Cons.prems(2) have "R \<notin> set rs \<or> R \<in> set (keys met)" by auto
      from Cons.IH [OF rest [unfolded eq] this] ne
      show ?thesis by (simp add: map_of_record_one)
    qed
  qed
qed

lemma check_individual_at:
  "check_individual kw rv i met rs d = (Inr d', tr) \<Longrightarrow> distinct rs \<Longrightarrow> R \<in> set rs \<Longrightarrow>
   R \<notin> set (keys met) \<Longrightarrow>
   \<exists>v. resolve rv kw R = Inr v \<and> Resolve i R (Inr v) \<in> set tr
       \<and> map_of d' R = map_of (record_one kw R v d) R"
proof (induction rs arbitrary: d tr)
  case Nil
  then show ?case by simp
next
  case (Cons r rs)
  show ?case
  proof (cases "r \<in> set (keys met)")
    case True
    with Cons.prems have "check_individual kw rv i met rs d = (Inr d', tr)" "distinct rs" "R \<in> set rs"
      by auto
    from Cons.IH [OF this Cons.prems(4)] show ?thesis .
  next
    case False
    show ?thesis
    proof (cases "resolve rv kw r")
      case (Inl e)
      with False Cons.prems show ?thesis by simp
    next
      case (Inr v)
      obtain res' tr' where rest: "check_individual kw rv i met rs (record_one kw r v d) = (res', tr')"
        by (cases "check_individual kw rv i met rs (record_one kw r v d)")
      with False Inr Cons.prems have eq: "res' = Inr d'" "tr = Resolve i r (Inr v) # tr'" by simp_all
      show ?thesis
      proof (cases "R = r")
        case True
        with Cons.prems(2) have "R \<notin> set rs" by simp
        with check_individual_other [OF rest [unfolded eq(1)], of R]
        have "map_of d' R = map_of (record_one kw r v d) R" by simp
        with True Inr eq(2) show ?thesis by simp
      next
        case ne: False
        with Cons.prems have "distinct rs" "R \<in> set rs" by auto
        from Cons.IH [OF rest [unfolded eq(1)] this Cons.prems(4)]
        obtain w where w: "resolve rv kw R = Inr w" "Resolve i R (Inr w) \<in> set tr'"
          "map_of d' R = map_of (record_one kw R w (record_one kw r v d)) R" by blast
        from ne have "map_of (record_one kw R w (record_one kw r v d)) R = map_of (record_one kw R w d) R"
          by (simp add: map_of_record_one)
        with w eq(2) show ?thesis by simp
      qed
    qed
  qed
qed

lemma set_insertion_order: "set (insertion_order xs ks) = set ks \<union> set xs"
  unfolding insertion_order_def
  by (induction xs arbitrary: ks) (auto simp: insert_key_def)

lemma distinct_insertion_order: "distinct ks \<Longrightarrow> distinct (insertion_order xs ks)"
  unfolding insertion_order_def
  by (induction xs arbitrary: ks) (auto simp: insert_key_def)

lemma insertion_order_fresh:
  "distinct xs \<Longrightarrow> set xs \<inter> set ks = {} \<Longrightarrow> insertion_order xs ks = ks @ xs"
  unfolding insertion_order_def
  by (induction xs arbitrary: ks) (auto simp: insert_key_def)

lemma keys_not_null_items:
  "distinct (keys d) \<Longrightarrow>
   R \<in> set (keys (not_null_items d)) \<longleftrightarrow> (\<exists>v. map_of d R = Some v \<and> \<not> isNullDependency v)"
  by (force simp: keys_def not_null_items_def)

lemma recorded_subset:
  assumes "\<And>c. c \<in> set tr \<Longrightarrow> (\<exists>i r a. c = Resolve i r a \<and> r \<in> set reqs) \<or> (\<exists>i a. c = ResolveAll i a)"
  shows "set (recorded kw reqs tr) \<subseteq> set reqs"
proof
  fix x assume "x \<in> set (recorded kw reqs tr)"
  then obtain c where c: "c \<in> set tr" "x \<in> set (recorded_by kw reqs c)"
    by (auto simp: recorded_def)
  from assms [OF c(1)] consider (item) i r a where "c = Resolve i r a" "r \<in> set reqs"
    | (batch) i a where "c = ResolveAll i a" by blast
  then show "x \<in> set reqs"
  proof cases
    case item
    with c(2) show ?thesis by (cases a) (auto split: if_splits)
  next
    case batch
    with c(2) show ?thesis by (cases a) (auto split: if_splits)
  qed
qed

lemma resolver_body_recorded_subset:
  "resolver_body kw reqs i rv d = (out, tr) \<Longrightarrow> set (recorded kw reqs tr) \<subseteq> set reqs"
  by (rule recorded_subset) (auto dest: resolver_body_events)

lemma resolver_body_distinct:
  "resolver_body kw reqs i rv d = (out, tr) \<Longrightarrow> out = Break d' \<or> out = Continue d' \<Longrightarrow>
   distinct (keys d) \<Longrightarrow> distinct (keys d')"
  by (simp add: resolver_body_keys distinct_insertion_order)

lemma resolver_body_keys_subset:
  "resolver_body kw reqs i rv d = (out, tr) \<Longrightarrow> out = Break d' \<or> out = Continue d' \<Longrightarrow>
   set (keys d) \<subseteq> set reqs \<Longrightarrow> set (keys d') \<subseteq> set reqs"
  using resolver_body_recorded_subset [of kw reqs i rv d out tr]
  by (simp add: resolver_body_keys set_insertion_order)

lemma individual_path_met_preserved:
  "individual_path kw reqs i rv met d = (out, tr) \<Longrightarrow> R \<in> set (keys met) \<Longrightarrow>
   out = Break d' \<or> out = Continue d' \<Longrightarrow> map_of d' R = map_of d R"
  by (auto simp: individual_path_def split: if_splits prod.splits sum.splits
      dest: check_individual_other)

lemma resolver_body_met_calls:
  assumes "resolver_body kw reqs i rv d = (out, tr)" "distinct (keys d)"
    "map_of d R = Some v" "\<not> isNullDependency v" "c \<in> set tr"
  shows "\<exists>r a. c = Resolve i r a \<and> r \<noteq> R"
proof -
  from assms(2-4) have met: "R \<in> set (keys (not_null_items d))"
    by (auto simp: keys_not_null_items)
  then have "not_null_items d \<noteq> []" by (auto simp: keys_def)
  with resolver_body_events [OF assms(1,5)] met show ?thesis by auto
qed

lemma resolver_body_met_preserved:
  assumes "resolver_body kw reqs i rv d = (out, tr)" "distinct (keys d)"
    "map_of d R = Some v" "\<not> isNullDependency v" "out = Break d' \<or> out = Continue d'"
  shows "map_of d' R = Some v"
proof -
  from assms(2-4) have met: "R \<in> set (keys (not_null_items d))"
    by (auto simp: keys_not_null_items)
  then have ne: "not_null_items d \<noteq> []" by (auto simp: keys_def)
  from assms(1,5) ne have "map_of d' R = map_of d R"
    unfolding resolver_body_def Let_def
    by (auto split: if_splits option.splits
        dest: individual_path_met_preserved [OF _ met, where d' = d'])
  with assms(3) show ?thesis by simp
qed

lemma resolver_loop_met:
  "resolver_loop kw reqs i chain d = (res, tr) \<Longrightarrow> distinct (keys d) \<Longrightarrow>
   map_of d R = Some v \<Longrightarrow> \<not> isNullDependency v \<Longrightarrow>
   (\<forall>c \<in> set tr. \<exists>j r a. c = Resolve j r a \<and> r \<noteq> R)
   \<and> (\<forall>d'. res = Inr d' \<longrightarrow> map_of d' R = Some v)"
proof (induction chain arbitrary: i d res tr)
  case Nil
  then show ?case by auto
next
  case (Cons rv rest)
  obtain out tr1 where body: "resolver_body kw reqs i rv d = (out, tr1)"
    by (cases "resolver_body kw reqs i rv d")
  have calls1: "\<forall>c \<in> set tr1. \<exists>j r a. c = Resolve j r a \<and> r \<noteq> R"
    using resolver_body_met_calls [OF body Cons.prems(2-4)] by blast
  show ?case
  proof (cases out)
    case (Raise e)
    with body Cons.prems(1) have "tr = tr1" "res = Inl e" by simp_all
    with calls1 show ?thesis by simp
  next
    case (Break d1)
    with body Cons.prems(1) have "tr = tr1" "res = Inr d1" by simp_all
    with calls1 resolver_body_met_preserved [OF body Cons.prems(2-4), of d1] Break
    show ?thesis by simp
  next
    case (Continue d1)
    obtain res2 tr2 where rest: "resolver_loop kw reqs (Suc i) rest d1 = (res2, tr2)"
      by (cases "resolver_loop kw reqs (Suc i) rest d1")
    with body Continue Cons.prems(1) have eq: "tr = tr1 @ tr2" "res = res2" by simp_all
    have d1: "map_of d1 R = Some v" "distinct (keys d1)"
      using resolver_body_met_preserved [OF body Cons.prems(2-4), of d1]
        resolver_body_distinct [OF body _ Cons.prems(2), of d1] Continue by simp_all
    from Cons.IH [OF rest d1(2) d1(1) Cons.prems(4)] calls1 eq
    show ?thesis by auto
  qed
qed

lemma individual_path_recorded_value:
  assumes "individual_path kw reqs i rv met d = (out, tr)" "distinct reqs"
    "Resolve j R (Inr v) \<in> set tr" "\<not> isNullDependency v" "kw_exact kw \<longrightarrow> dep_exact v"
    "out = Break d' \<or> out = Continue d'"
  shows "map_of d' R = Some v"
proof -
  from individual_path_events [OF assms(1,3)]
  have R: "R \<in> set reqs" "R \<notin> set (keys met)" "resolve rv kw R = Inr v" by auto
  from assms(1,3,6) obtain tr' where ci: "check_individual kw rv i met reqs d = (Inr d', tr)"
    by (auto simp: individual_path_def split: if_splits prod.splits sum.splits)
  from check_individual_at [OF ci assms(2) R(1,2)] R(3)
  have "map_of d' R = map_of (record_one kw R v d) R" by auto
  with assms(4,5) show ?thesis by (simp add: map_of_record_one)
qed

lemma resolver_body_recorded_value:
  assumes "resolver_body kw reqs i rv d = (out, tr)" "distinct reqs"
    "Resolve j R (Inr v) \<in> set tr" "\<not> isNullDependency v" "kw_exact kw \<longrightarrow> dep_exact v"
    "out = Break d' \<or> out = Continue d'"
  shows "map_of d' R = Some v"
  using assms(1,3,6) unfolding resolver_body_def Let_def
  by (auto split: if_splits option.splits sum.splits prod.splits
      dest: individual_path_recorded_value [OF _ assms(2) _ assms(4,5), where d' = d'])

lemma resolver_loop_distinct:
  "resolver_loop kw reqs i chain d = (Inr d', tr) \<Longrightarrow> distinct (keys d) \<Longrightarrow> distinct (keys d')"
  by (simp add: resolver_loop_keys distinct_insertion_order)

lemma resolver_loop_events:
  "resolver_loop kw reqs i chain d = (res, tr) \<Longrightarrow> c \<in> set tr \<Longrightarrow>
   \<exists>k < length chain.
     (\<exists>r. c = Resolve (i + k) r (resolve (chain ! k) kw r) \<and> r \<in> set reqs
          \<and> \<not> isContainerResolver (chain ! k))
     \<or> (\<exists>f. c = ResolveAll (i + k) (f kw reqs) \<and> choose_resolve kw (chain ! k) = Some (Some f))"
proof (induction chain arbitrary: i d res tr)
  case Nil
  then show ?case by simp
next
  case (Cons rv rest)
  obtain out tr1 where body: "resolver_body kw reqs i rv d = (out, tr1)"
    by (cases "resolver_body kw reqs i rv d")
  have here: ?case if "c \<in> set tr1"
    using resolver_body_events [OF body that] by (intro exI [of _ 0]) auto
  show ?case
  proof (cases out)
    case (Raise e)
    with body Cons.prems have "c \<in> set tr1" by simp
    then show ?thesis by (rule here)
  next
    case (Break d1)
    with body Cons.prems have "c \<in> set tr1" by simp
    then show ?thesis by (rule here)
  next
    case (Continue d1)
    obtain res2 tr2 where rest: "resolver_loop kw reqs (Suc i) rest d1 = (res2, tr2)"
      by (cases "resolver_loop kw reqs (Suc i) rest d1")
    with body Continue Cons.prems have "c \<in> set tr1 \<or> c \<in> set tr2" by auto
    then show ?thesis
    proof
      assume "c \<in> set tr1" then show ?thesis by (rule here)
    next
      assume "c \<in> set tr2"
      from Cons.IH [OF rest this] obtain k where k: "k < length rest"
        "(\<exists>r. c = Resolve (Suc i + k) r (resolve (rest ! k) kw r) \<and> r \<in> set reqs
            \<and> \<not> isContainerResolver (rest ! k))
         \<or> (\<exists>f. c = ResolveAll (Suc i + k) (f kw reqs) \<and> choose_resolve kw (rest ! k) = Some (Some f))"
        by blast
      then show ?thesis by (intro exI [of _ "Suc k"]) auto
    qed
  qed
qed

lemma resolver_loop_precedence:
  "resolver_loop kw reqs i chain d = (res, tr) \<Longrightarrow> distinct reqs \<Longrightarrow> distinct (keys d) \<Longrightarrow>
   Resolve j R (Inr v) \<in> set tr \<Longrightarrow> \<not> isNullDependency v \<Longrightarrow> kw_exact kw \<longrightarrow> dep_exact v \<Longrightarrow>
   (\<forall>d'. res = Inr d' \<longrightarrow> map_of d' R = Some v)
   \<and> (\<forall>c \<in> set tr. j < call_index c \<longrightarrow> (\<exists>k r a. c = Resolve k r a \<and> r \<noteq> R))"
proof (induction chain arbitrary: i d res tr)
  case Nil
  then show ?case by simp
next
  case (Cons rv rest)
  obtain out tr1 where body: "resolver_body kw reqs i rv d = (out, tr1)"
    by (cases "resolver_body kw reqs i rv d")
  have idx1: "\<forall>c \<in> set tr1. call_index c = i"
    using resolver_body_index [OF body] by blast
  show ?case
  proof (cases out)
    case (Raise e)
    with body Cons.prems(1) have eq: "tr = tr1" "res = Inl e" by simp_all
    with Cons.prems(4) idx1 have "j = i" by force
    with eq idx1 show ?thesis by auto
  next
    case (Break d1)
    with body Cons.prems(1) have eq: "tr = tr1" "res = Inr d1" by simp_all
    with Cons.prems(4) idx1 have "j = i" by force
    moreover have "map_of d1 R = Some v"
      using resolver_body_recorded_value [OF body Cons.prems(2) _ Cons.prems(5,6), of j R d1]
        Cons.prems(4) eq Break by simp
    ultimately show ?thesis using eq idx1 by auto
  next
    case (Continue d1)
    obtain res2 tr2 where rest: "resolver_loop kw reqs (Suc i) rest d1 = (res2, tr2)"
      by (cases "resolver_loop kw reqs (Suc i) rest d1")
    with body Continue Cons.prems(1) have eq: "tr = tr1 @ tr2" "res = res2" by simp_all
    have dd1: "distinct (keys d1)"
      using resolver_body_distinct [OF body _ Cons.prems(3), of d1] Continue by simp
    have idx2: "\<forall>c \<in> set tr2. Suc i \<le> call_index c"
      using resolver_loop_index [OF rest] by blast
    from Cons.prems(4) eq consider "Resolve j R (Inr v) \<in> set tr1" | "Resolve j R (Inr v) \<in> set tr2"
      by auto
    then show ?thesis
    proof cases
      case 1
      with idx1 have ji: "j = i" by force
      have "map_of d1 R = Some v"
        using resolver_body_recorded_value [OF body Cons.prems(2) 1 Cons.prems(5,6), of d1]
          Continue by simp
      from resolver_loop_met [OF rest dd1 this Cons.prems(5)] eq ji idx1
      show ?thesis by auto
    next
      case 2
      with idx2 have "i < j" by force
      with Cons.IH [OF rest Cons.prems(2) dd1 2 Cons.prems(5,6)] eq idx1
      show ?thesis by auto
    qed
  qed
qed

lemma all_met_length:
  assumes "distinct reqs" "distinct (keys d)" "set (keys d) \<subseteq> set reqs"
    "\<forall>R \<in> set reqs. \<exists>v. map_of d R = Some v \<and> \<not> isNullDependency v"
  shows "length (not_null_items d) = length reqs"
proof -
  have dk: "distinct (keys (not_null_items d))"
    using assms(2) by (simp add: keys_def not_null_items_def distinct_map_filter)
  have "set (keys (not_null_items d)) = set reqs"
    using assms(2-4) by (auto simp: keys_not_null_items) (auto simp: keys_def not_null_items_def)
  with dk assms(1) have "length (keys (not_null_items d)) = length reqs"
    by (metis distinct_card)
  then show ?thesis by (simp add: keys_def)
qed

lemma all_met_stop:
  assumes "distinct reqs" "distinct (keys d)" "set (keys d) \<subseteq> set reqs"
    "\<forall>R \<in> set reqs. \<exists>v. map_of d R = Some v \<and> \<not> isNullDependency v"
  shows "resolver_loop kw reqs i chain d = (Inr d, [])"
proof (induction chain arbitrary: i)
  case Nil
  show ?case by simp
next
  case (Cons rv rest)
  have "resolver_body kw reqs i rv d = (Continue d, []) \<or> resolver_body kw reqs i rv d = (Break d, [])"
    unfolding resolver_body_def Let_def using all_met_length [OF assms] by simp
  with Cons show ?case by auto
qed

lemma resolver_loop_early_stop:
  "resolver_loop kw reqs i chain d = (res, tr) \<Longrightarrow> distinct reqs \<Longrightarrow> distinct (keys d) \<Longrightarrow>
   set (keys d) \<subseteq> set reqs \<Longrightarrow>
   \<forall>R \<in> set reqs. (\<exists>v. map_of d R = Some v \<and> \<not> isNullDependency v)
      \<or> (\<exists>j v. j \<le> n \<and> Resolve j R (Inr v) \<in> set tr \<and> \<not> isNullDependency v
             \<and> (kw_exact kw \<longrightarrow> dep_exact v)) \<Longrightarrow>
   \<forall>c \<in> set tr. call_index c \<le> n"
proof (induction chain arbitrary: i d res tr)
  case Nil
  then show ?case by simp
next
  case (Cons rv rest)
  show ?case
  proof (cases "i \<le> n")
    case False
    have "\<forall>c \<in> set tr. i \<le> call_index c"
      using resolver_loop_index [OF Cons.prems(1)] by blast
    with False have "\<forall>j v. j \<le> n \<longrightarrow> Resolve j R (Inr v) \<notin> set tr" for R
      by force
    with Cons.prems(5) have "\<forall>R \<in> set reqs. \<exists>v. map_of d R = Some v \<and> \<not> isNullDependency v"
      by blast
    from all_met_stop [OF Cons.prems(2-4) this, of kw i "rv # rest"] Cons.prems(1)
    show ?thesis by simp
  next
    case True
    obtain out tr1 where body: "resolver_body kw reqs i rv d = (out, tr1)"
      by (cases "resolver_body kw reqs i rv d")
    have idx1: "\<forall>c \<in> set tr1. call_index c = i"
      using resolver_body_index [OF body] by blast
    show ?thesis
    proof (cases out)
      case (Raise e)
      with body Cons.prems(1) have "tr = tr1" by simp
      with idx1 True show ?thesis by simp
    next
      case (Break d1)
      with body Cons.prems(1) have "tr = tr1" by simp
      with idx1 True show ?thesis by simp
    next
      case (Continue d1)
      obtain res2 tr2 where rest: "resolver_loop kw reqs (Suc i) rest d1 = (res2, tr2)"
        by (cases "resolver_loop kw reqs (Suc i) rest d1")
      with body Continue Cons.prems(1) have eq: "tr = tr1 @ tr2" by simp
      have inv1: "distinct (keys d1)" "set (keys d1) \<subseteq> set reqs"
        using resolver_body_distinct [OF body _ Cons.prems(3), of d1]
          resolver_body_keys_subset [OF body _ Cons.prems(4), of d1] Continue by simp_all
      have "\<forall>R \<in> set reqs. (\<exists>v. map_of d1 R = Some v \<and> \<not> isNullDependency v)
          \<or> (\<exists>j v. j \<le> n \<and> Resolve j R (Inr v) \<in> set tr2 \<and> \<not> isNullDependency v
                 \<and> (kw_exact kw \<longrightarrow> dep_exact v))"
      proof
        fix R assume "R \<in> set reqs"
        with Cons.prems(5) consider
          (met) v where "map_of d R = Some v" "\<not> isNullDependency v"
          | (call) j v where "j \<le> n" "Resolve j R (Inr v) \<in> set tr" "\<not> isNullDependency v"
              "kw_exact kw \<longrightarrow> dep_exact v"
          by blast
        then show "(\<exists>v. map_of d1 R = Some v \<and> \<not> isNullDependency v)
          \<or> (\<exists>j v. j \<le> n \<and> Resolve j R (Inr v) \<in> set tr2 \<and> \<not> isNullDependency v
                 \<and> (kw_exact kw \<longrightarrow> dep_exact v))"
        proof cases
          case met
          from resolver_body_met_preserved [OF body Cons.prems(3) met, of d1] Continue met(2)
          show ?thesis by auto
        next
          case call
          show ?thesis
          proof (cases "Resolve j R (Inr v) \<in> set tr1")
            case True
            from resolver_body_recorded_value [OF body Cons.prems(2) True call(3,4), of d1] Continue
              call(3)
            show ?thesis by auto
          next
            case False
            with call eq show ?thesis by auto
          qed
        qed
      qed
      from Cons.IH [OF rest Cons.prems(2) inv1 this] idx1 True eq
      show ?thesis by auto
    qed
  qed
qed

subsection \<open>Running the examples\<close>

lemmas engine_defs =
  requirements_to_dependencies_dict_def resolvable_def resolver_body_def individual_path_def
  choose_resolve_def not_null_items_def record_one_def keys_def isNullDependency_def
  startswith_def

lemmas example_defs =
  samtools_def bwa_def package_or_environment_def package_dependency_def item_resolver_def
  only_bwa_def anything_def merged_def no_kwds_def manager_of_def NullDependency_def

lemma distinct_resolvable: "distinct requirements \<Longrightarrow> distinct (resolvable P requirements)"
  by (simp add: resolvable_def)

lemma example_run:
  "requirements_to_dependencies_dict package_or_environment (manager_of [only_bwa, anything])
     [samtools, bwa] no_kwds
   = (Inr [(bwa, package_dependency ''A'' bwa True), (samtools, package_dependency ''B'' samtools False)],
      [Resolve 0 samtools (Inr (NullDependency None ''samtools'')),
       Resolve 0 bwa (Inr (package_dependency ''A'' bwa True)),
       Resolve 1 samtools (Inr (package_dependency ''B'' samtools False))])"
  by (simp add: engine_defs example_defs)

subsection \<open>The order of the calls\<close>

lemma check_individual_recorded_subseq:
  "check_individual kw rv i met rs d = (res, tr) \<Longrightarrow> subseq (recorded kw reqs tr) rs"
proof (induction rs arbitrary: d res tr)
  case Nil
  then show ?case by (simp add: recorded_Nil)
next
  case (Cons r rs)
  show ?case
  proof (cases "r \<in> set (keys met)")
    case True
    with Cons.prems have "check_individual kw rv i met rs d = (res, tr)" by simp
    from Cons.IH [OF this] show ?thesis by (rule list_emb_Cons)
  next
    case False
    show ?thesis
    proof (cases "resolve rv kw r")
      case (Inl e)
      with False Cons.prems show ?thesis by (auto simp: recorded_Cons recorded_Nil)
    next
      case (Inr v)
      obtain res' tr' where rest: "check_individual kw rv i met rs (record_one kw r v d) = (res', tr')"
        by (cases "check_individual kw rv i met rs (record_one kw r v d)")
      with False Inr Cons.prems have eq: "tr = Resolve i r (Inr v) # tr'" by simp
      from Cons.IH [OF rest] show ?thesis
        unfolding eq recorded_Cons by (auto intro: list_emb_Cons)
    qed
  qed
qed

lemma individual_path_recorded_subseq:
  "individual_path kw reqs i rv met d = (out, tr) \<Longrightarrow> subseq (recorded kw reqs tr) reqs"
  by (auto simp: individual_path_def recorded_Nil split: if_splits prod.splits sum.splits
      dest: check_individual_recorded_subseq [where reqs = reqs])

lemma resolver_body_recorded_subseq:
  "resolver_body kw reqs i rv d = (out, tr) \<Longrightarrow> subseq (recorded kw reqs tr) reqs"
  unfolding resolver_body_def Let_def
  by (auto simp: recorded_Nil recorded_Cons
      split: if_splits option.splits sum.splits prod.splits
      dest: individual_path_recorded_subseq)

lemma filter_index_body:
  "resolver_body kw reqs i rv d = (out, tr) \<Longrightarrow>
   filter (\<lambda>c. call_index c = j) tr = (if j = i then tr else [])"
  by (auto simp: filter_empty_conv dest: resolver_body_index intro: filter_True)

lemma resolver_loop_recorded_subseq:
  "resolver_loop kw reqs i chain d = (res, tr) \<Longrightarrow>
   subseq (recorded kw reqs (filter (\<lambda>c. call_index c = j) tr)) reqs"
proof (induction chain arbitrary: i d res tr)
  case Nil
  then show ?case by (simp add: recorded_Nil)
next
  case (Cons rv rest)
  obtain out tr1 where body: "resolver_body kw reqs i rv d = (out, tr1)"
    by (cases "resolver_body kw reqs i rv d")
  have sub1: "subseq (recorded kw reqs (filter (\<lambda>c. call_index c = j) tr1)) reqs"
    using resolver_body_recorded_subseq [OF body]
    by (simp add: filter_index_body [OF body] recorded_Nil)
  show ?case
  proof (cases out)
    case (Raise e)
    with body Cons.prems have "tr = tr1" by simp
    with sub1 show ?thesis by simp
  next
    case (Break d1)
    with body Cons.prems have "tr = tr1" by simp
    with sub1 show ?thesis by simp
  next
    case (Continue d1)
    obtain res2 tr2 where rest: "resolver_loop kw reqs (Suc i) rest d1 = (res2, tr2)"
      by (cases "resolver_loop kw reqs (Suc i) rest d1")
    with body Continue Cons.prems have eq: "tr = tr1 @ tr2" by simp
    show ?thesis
    proof (cases "j = i")
      case True
      have "filter (\<lambda>c. call_index c = j) tr2 = []"
        using resolver_loop_index [OF rest] True by (fastforce simp: filter_empty_conv)
      with sub1 eq show ?thesis by simp
    next
      case False
      then have "filter (\<lambda>c. call_index c = j) tr1 = []"
        by (simp add: filter_index_body [OF body])
      with Cons.IH [OF rest] eq show ?thesis by simp
    qed
  qed
qed

lemma resolver_loop_sorted:
  "resolver_loop kw reqs i chain d = (res, tr) \<Longrightarrow> sorted (map call_index tr)"
proof (induction chain arbitrary: i d res tr)
  case Nil
  then show ?case by simp
next
  case (Cons rv rest)
  obtain out tr1 where body: "resolver_body kw reqs i rv d = (out, tr1)"
    by (cases "resolver_body kw reqs i rv d")
  have idx1: "\<forall>c \<in> set tr1. call_index c = i"
    using resolver_body_index [OF body] by blast
  then have s1: "sorted (map call_index tr1)"
    by (simp add: sorted_wrt_iff_nth_less sorted_wrt_map)
  show ?case
  proof (cases out)
    case (Raise e)
    with body Cons.prems s1 show ?thesis by simp
  next
    case (Break d1)
    with body Cons.prems s1 show ?thesis by simp
  next
    case (Continue d1)
    obtain res2 tr2 where rest: "resolver_loop kw reqs (Suc i) rest d1 = (res2, tr2)"
      by (cases "resolver_loop kw reqs (Suc i) rest d1")
    with body Continue Cons.prems have eq: "tr = tr1 @ tr2" by simp
    have "\<forall>c \<in> set tr2. Suc i \<le> call_index c"
      using resolver_loop_index [OF rest] by blast
    with idx1 Cons.IH [OF rest] s1 show ?thesis
      unfolding eq by (fastforce simp: sorted_append)
  qed
qed

lemma recorded_filter:
  "\<forall>c \<in> set tr. recorded_by kw reqs c \<noteq> [] \<longrightarrow> P c \<Longrightarrow>
   recorded kw reqs (filter P tr) = recorded kw reqs tr"
  by (induction tr) (auto simp: recorded_Cons recorded_Nil)

lemma resolver_loop_recorded_subset:
  "resolver_loop kw reqs i chain d = (res, tr) \<Longrightarrow> set (recorded kw reqs tr) \<subseteq> set reqs"
  by (rule recorded_subset) (auto dest: resolver_loop_events)

subsection \<open>Whole-set answers\<close>

lemma single_run:
  "requirements_to_dependencies_dict package_or_environment (manager_of [anything])
     [samtools, bwa] no_kwds
   = (Inr [(samtools, package_dependency ''B'' samtools False), (bwa, package_dependency ''B'' bwa False)],
      [Resolve 0 samtools (Inr (package_dependency ''B'' samtools False)),
       Resolve 0 bwa (Inr (package_dependency ''B'' bwa False))])"
  by (simp add: engine_defs example_defs)

lemma map_of_record_all_other:
  "R \<notin> set rs \<Longrightarrow> map_of (record_all rs vs d) R = map_of d R"
  by (induction rs vs d rule: record_all.induct) (auto simp: update_conv')

lemma map_of_record_all:
  "distinct rs \<Longrightarrow> length vs = length rs \<Longrightarrow> k < length rs \<Longrightarrow>
   map_of (record_all rs vs d) (rs ! k) = Some (vs ! k)"
proof (induction rs vs d arbitrary: k rule: record_all.induct)
  case (1 r rs v vs d)
  show ?case
  proof (cases k)
    case 0
    with 1 show ?thesis by (simp add: map_of_record_all_other update_conv')
  next
    case (Suc m)
    with 1 show ?thesis by simp
  qed
qed simp_all

lemma individual_path_no_batch:
  "individual_path kw reqs i rv met d = (out, tr) \<Longrightarrow> ResolveAll j a \<notin> set tr"
  by (auto dest: individual_path_events)

lemma resolver_body_batch:
  assumes "resolver_body kw reqs i rv d = (out, tr)" "ResolveAll j (Inr b) \<in> set tr" "truthy b"
  shows "tr = [ResolveAll j (Inr b)] \<and> j = i
     \<and> (if length (batch_dependencies reqs b) = length reqs
         then out = Break (record_all reqs (batch_dependencies reqs b) d)
         else out = Raise AssertionError)"
  using assms unfolding resolver_body_def Let_def
  by (auto split: if_splits option.splits sum.splits prod.splits
      dest: individual_path_no_batch)

lemma resolver_loop_batch:
  "resolver_loop kw reqs i chain d = (res, tr) \<Longrightarrow> ResolveAll j (Inr b) \<in> set tr \<Longrightarrow> truthy b \<Longrightarrow>
   (\<exists>pre d0. tr = pre @ [ResolveAll j (Inr b)] \<and> (\<forall>c \<in> set pre. call_index c < j)
      \<and> res = (if length (batch_dependencies reqs b) = length reqs
                then Inr (record_all reqs (batch_dependencies reqs b) d0)
                else Inl AssertionError))"
proof (induction chain arbitrary: i d res tr)
  case Nil
  then show ?case by simp
next
  case (Cons rv rest)
  obtain out tr1 where body: "resolver_body kw reqs i rv d = (out, tr1)"
    by (cases "resolver_body kw reqs i rv d")
  have idx1: "\<forall>c \<in> set tr1. call_index c = i"
    using resolver_body_index [OF body] by blast
  have here: ?case if m: "ResolveAll j (Inr b) \<in> set tr1"
  proof -
    note bb = resolver_body_batch [OF body m Cons.prems(3)]
    with body Cons.prems(1) have "tr = [] @ [ResolveAll j (Inr b)]"
      "res = (if length (batch_dependencies reqs b) = length reqs
                then Inr (record_all reqs (batch_dependencies reqs b) d)
                else Inl AssertionError)"
      by (auto split: if_splits)
    then show ?thesis by (intro exI [of _ "[]"] exI [of _ d]) simp
  qed
  show ?case
  proof (cases out)
    case (Raise e)
    with body Cons.prems have "ResolveAll j (Inr b) \<in> set tr1" by simp
    then show ?thesis by (rule here)
  next
    case (Break d1)
    with body Cons.prems have "ResolveAll j (Inr b) \<in> set tr1" by simp
    then show ?thesis by (rule here)
  next
    case (Continue d1)
    obtain res2 tr2 where rest: "resolver_loop kw reqs (Suc i) rest d1 = (res2, tr2)"
      by (cases "resolver_loop kw reqs (Suc i) rest d1")
    with body Continue Cons.prems(1) have eq: "tr = tr1 @ tr2" "res = res2" by simp_all
    show ?thesis
    proof (cases "ResolveAll j (Inr b) \<in> set tr1")
      case True
      then show ?thesis by (rule here)
    next
      case False
      with Cons.prems(2) eq have m2: "ResolveAll j (Inr b) \<in> set tr2" by simp
      from resolver_loop_index [OF rest m2] have ij: "i < j" by simp
      from Cons.IH [OF rest m2 Cons.prems(3)] obtain pre d0 where
        p: "tr2 = pre @ [ResolveAll j (Inr b)]" "\<forall>c \<in> set pre. call_index c < j"
        "res2 = (if length (batch_dependencies reqs b) = length reqs
                then Inr (record_all reqs (batch_dependencies reqs b) d0)
                else Inl AssertionError)" by blast
      from p eq idx1 ij show ?thesis
        by (intro exI [of _ "tr1 @ pre"] exI [of _ d0]) auto
    qed
  qed
qed

subsection \<open>The cases of the loop body\<close>

lemma individual_path_cases:
  assumes "individual_path kw reqs i rv met d = (out, tr)" "out = Break d' \<or> out = Continue d'"
  shows "(isContainerResolver rv \<and> d' = d \<and> tr = [])
     \<or> (\<not> isContainerResolver rv \<and> check_individual kw rv i met reqs d = (Inr d', tr))"
proof (cases "isContainerResolver rv")
  case True
  with assms show ?thesis by (auto simp: individual_path_def)
next
  case False
  obtain res tr' where ci: "check_individual kw rv i met reqs d = (res, tr')"
    by (cases "check_individual kw rv i met reqs d")
  with False assms show ?thesis by (cases res) (auto simp: individual_path_def)
qed

lemma resolver_body_cases:
  assumes "resolver_body kw reqs i rv d = (out, tr)"
  obtains (skip) "out = Continue d" "tr = []"
      "(kw_index kw \<noteq> None \<and> Some (int i) \<noteq> kw_index kw)
       \<or> (kw_resolver_type kw \<noteq> None \<and> Some (resolver_type rv) \<noteq> kw_resolver_type kw)
       \<or> (startswith (resolver_type rv) ''build_mulled'' \<and> \<not> kw_install kw)
       \<or> choose_resolve kw rv = None"
  | (stop) "out = Break d" "tr = []" "length (not_null_items d) = length reqs"
  | (individual) "individual_path kw reqs i rv (not_null_items d) d = (out, tr)"
      "length (not_null_items d) \<noteq> length reqs"
  | (raised) f e where "choose_resolve kw rv = Some (Some f)" "not_null_items d = []"
      "f kw reqs = Inl e" "out = Raise e" "tr = [ResolveAll i (Inl e)]"
  | (batch) f b where "choose_resolve kw rv = Some (Some f)" "not_null_items d = []"
      "f kw reqs = Inr b" "truthy b" "length (batch_dependencies reqs b) = length reqs"
      "out = Break (record_all reqs (batch_dependencies reqs b) d)" "tr = [ResolveAll i (Inr b)]"
  | (assertion) f b where "choose_resolve kw rv = Some (Some f)" "not_null_items d = []"
      "f kw reqs = Inr b" "truthy b" "length (batch_dependencies reqs b) \<noteq> length reqs"
      "out = Raise AssertionError" "tr = [ResolveAll i (Inr b)]"
  | (falsy) f b tr' where "choose_resolve kw rv = Some (Some f)" "not_null_items d = []"
      "f kw reqs = Inr b" "\<not> truthy b"
      "individual_path kw reqs i rv (not_null_items d) d = (out, tr')"
      "tr = ResolveAll i (Inr b) # tr'" "length (not_null_items d) \<noteq> length reqs"
proof -
  let ?met = "not_null_items d"
  note body = assms [unfolded resolver_body_def Let_def]
  show thesis
  proof (cases "(kw_index kw \<noteq> None \<and> Some (int i) \<noteq> kw_index kw)
      \<or> (kw_resolver_type kw \<noteq> None \<and> Some (resolver_type rv) \<noteq> kw_resolver_type kw)")
    case True
    with body have "out = Continue d" "tr = []" by (simp_all split: if_splits)
    then show thesis using True by (intro skip) blast+
  next
    case filters: False
    show thesis
    proof (cases "length ?met = length reqs")
      case True
      with filters body have "out = Break d" "tr = []" by (simp_all split: if_splits)
      then show thesis using True by (rule stop)
    next
      case unmet: False
      show thesis
      proof (cases "startswith (resolver_type rv) ''build_mulled'' \<and> \<not> kw_install kw")
        case True
        with filters unmet body have "out = Continue d" "tr = []" by (simp_all split: if_splits)
        then show thesis using True by (intro skip) blast+
      next
        case build: False
        from filters unmet build body
        have choice: "(case choose_resolve kw rv of
             None \<Rightarrow> (Continue d, [])
           | Some None \<Rightarrow> individual_path kw reqs i rv ?met d
           | Some (Some f) \<Rightarrow>
               if length ?met = 0 then
                 (case f kw reqs of
                    Inl e \<Rightarrow> (Raise e, [ResolveAll i (Inl e)])
                  | Inr b \<Rightarrow>
                      if truthy b then
                        (if length (batch_dependencies reqs b) = length reqs
                         then (Break (record_all reqs (batch_dependencies reqs b) d),
                               [ResolveAll i (Inr b)])
                         else (Raise AssertionError, [ResolveAll i (Inr b)]))
                      else
                        (case individual_path kw reqs i rv ?met d of
                           (out, tr) \<Rightarrow> (out, ResolveAll i (Inr b) # tr)))
               else individual_path kw reqs i rv ?met d) = (out, tr)"
          by (simp split: if_splits)
        show thesis
        proof (cases "choose_resolve kw rv")
          case None
          with choice have "out = Continue d" "tr = []" by simp_all
          then show thesis using None by (intro skip) blast+
        next
          case (Some g)
          show thesis
          proof (cases g)
            case None
            with Some choice have "individual_path kw reqs i rv ?met d = (out, tr)" by simp
            then show thesis using unmet by (rule individual)
          next
            case inner: (Some f)
            show thesis
            proof (cases "?met = []")
              case False
              with Some inner choice have "individual_path kw reqs i rv ?met d = (out, tr)" by simp
              then show thesis using unmet by (rule individual)
            next
              case empty: True
              show thesis
              proof (cases "f kw reqs")
                case (Inl e)
                with Some inner empty choice have "out = Raise e" "tr = [ResolveAll i (Inl e)]"
                  by simp_all
                with Some inner empty Inl show thesis by (intro raised [of f e]) simp_all
              next
                case (Inr b)
                show thesis
                proof (cases "truthy b")
                  case False
                  obtain out' tr' where ip: "individual_path kw reqs i rv ?met d = (out', tr')"
                    by (cases "individual_path kw reqs i rv ?met d")
                  with Some inner empty Inr False choice
                  have "out' = out" "tr = ResolveAll i (Inr b) # tr'" by simp_all
                  with Some inner empty Inr False ip unmet show thesis
                    by (intro falsy [of f b tr']) simp_all
                next
                  case True
                  show thesis
                  proof (cases "length (batch_dependencies reqs b) = length reqs")
                    case len: True
                    with Some inner empty Inr True choice
                    have "out = Break (record_all reqs (batch_dependencies reqs b) d)"
                      "tr = [ResolveAll i (Inr b)]" by simp_all
                    with Some inner empty Inr True len show thesis
                      by (intro batch [of f b]) simp_all
                  next
                    case len: False
                    with Some inner empty Inr True choice
                    have "out = Raise AssertionError" "tr = [ResolveAll i (Inr b)]" by simp_all
                    with Some inner empty Inr True len show thesis
                      by (intro assertion [of f b]) simp_all
                  qed
                qed
              qed
            qed
          qed
        qed
      qed
    qed
  qed
qed

subsection \<open>Where an entry comes from\<close>

lemma merged_run:
  "requirements_to_dependencies_dict package_or_environment (manager_of [merged, anything])
     [samtools, bwa] exact_kwds
   = (Inr [(samtools, package_dependency ''M'' samtools False), (bwa, package_dependency ''M'' bwa False)],
      [ResolveAll 0 (Inr (Dependencies [package_dependency ''M'' samtools False,
                                        package_dependency ''M'' bwa False]))])"
  by (simp add: engine_defs example_defs exact_kwds_def)

lemma map_of_record_all_cases:
  "map_of (record_all rs vs d) R = Some w \<Longrightarrow> map_of d R = Some w \<or> w \<in> set vs"
  by (induction rs vs d rule: record_all.induct) (auto simp: update_conv' split: if_splits)

lemma check_individual_provenance:
  "check_individual kw rv i met rs d = (Inr d', tr) \<Longrightarrow> map_of d' R = Some w \<Longrightarrow>
   map_of d R = Some w
   \<or> (\<exists>v. Resolve i R (Inr v) \<in> set tr \<and> \<not> (kw_exact kw \<and> \<not> dep_exact v)
          \<and> (\<not> isNullDependency v \<or> kw_return_null kw)
          \<and> w = (if isNullDependency v then v\<lparr>dep_version := req_version R\<rparr> else v))"
proof (induction rs arbitrary: d tr)
  case Nil
  then show ?case by simp
next
  case (Cons r rs)
  show ?case
  proof (cases "r \<in> set (keys met)")
    case True
    with Cons.prems have "check_individual kw rv i met rs d = (Inr d', tr)" by simp
    from Cons.IH [OF this Cons.prems(2)] show ?thesis .
  next
    case False
    show ?thesis
    proof (cases "resolve rv kw r")
      case (Inl e)
      with False Cons.prems show ?thesis by simp
    next
      case (Inr v)
      obtain res' tr' where rest: "check_individual kw rv i met rs (record_one kw r v d) = (res', tr')"
        by (cases "check_individual kw rv i met rs (record_one kw r v d)")
      with False Inr Cons.prems have eq: "res' = Inr d'" "tr = Resolve i r (Inr v) # tr'" by simp_all
      from Cons.IH [OF rest [unfolded eq(1)] Cons.prems(2)]
      show ?thesis unfolding eq(2)
        by (auto simp: map_of_record_one split: if_splits)
    qed
  qed
qed

lemma individual_path_provenance:
  assumes "individual_path kw reqs i rv met d = (out, tr)" "out = Break d' \<or> out = Continue d'"
    "map_of d' R = Some w"
  shows "map_of d R = Some w
   \<or> (\<exists>v. Resolve i R (Inr v) \<in> set tr \<and> \<not> (kw_exact kw \<and> \<not> dep_exact v)
          \<and> (\<not> isNullDependency v \<or> kw_return_null kw)
          \<and> w = (if isNullDependency v then v\<lparr>dep_version := req_version R\<rparr> else v))"
  using individual_path_cases [OF assms(1,2)]
proof
  assume "isContainerResolver rv \<and> d' = d \<and> tr = []"
  with assms(3) show ?thesis by simp
next
  assume "\<not> isContainerResolver rv \<and> check_individual kw rv i met reqs d = (Inr d', tr)"
  then have "check_individual kw rv i met reqs d = (Inr d', tr)" ..
  from check_individual_provenance [OF this assms(3)] show ?thesis .
qed

lemma resolver_body_provenance:
  assumes "resolver_body kw reqs i rv d = (out, tr)" "out = Break d' \<or> out = Continue d'"
    "map_of d' R = Some w"
  shows "map_of d R = Some w
   \<or> (\<exists>v. Resolve i R (Inr v) \<in> set tr \<and> \<not> (kw_exact kw \<and> \<not> dep_exact v)
          \<and> (\<not> isNullDependency v \<or> kw_return_null kw)
          \<and> w = (if isNullDependency v then v\<lparr>dep_version := req_version R\<rparr> else v))
   \<or> (\<exists>b. ResolveAll i (Inr b) \<in> set tr \<and> truthy b \<and> w \<in> set (batch_dependencies reqs b))"
  using assms(1)
proof (cases rule: resolver_body_cases)
  case skip
  with assms show ?thesis by auto
next
  case stop
  with assms show ?thesis by auto
next
  case individual
  from individual_path_provenance [OF individual(1) assms(2,3)] show ?thesis by blast
next
  case (raised f e)
  with assms show ?thesis by auto
next
  case (batch f b)
  with assms(2,3) have "map_of (record_all reqs (batch_dependencies reqs b) d) R = Some w" by auto
  from map_of_record_all_cases [OF this] batch show ?thesis by auto
next
  case (assertion f b)
  with assms show ?thesis by auto
next
  case (falsy f b tr')
  from individual_path_provenance [OF falsy(5) assms(2,3)] falsy(6) show ?thesis by auto
qed

lemma resolver_loop_provenance:
  "resolver_loop kw reqs i chain d = (Inr d', tr) \<Longrightarrow> map_of d' R = Some w \<Longrightarrow>
   map_of d R = Some w
   \<or> (\<exists>j v. Resolve j R (Inr v) \<in> set tr \<and> \<not> (kw_exact kw \<and> \<not> dep_exact v)
          \<and> (\<not> isNullDependency v \<or> kw_return_null kw)
          \<and> w = (if isNullDependency v then v\<lparr>dep_version := req_version R\<rparr> else v))
   \<or> (\<exists>j b. ResolveAll j (Inr b) \<in> set tr \<and> truthy b \<and> w \<in> set (batch_dependencies reqs b))"
proof (induction chain arbitrary: i d tr)
  case Nil
  then show ?case by simp
next
  case (Cons rv rest)
  obtain out tr1 where body: "resolver_body kw reqs i rv d = (out, tr1)"
    by (cases "resolver_body kw reqs i rv d")
  show ?case
  proof (cases out)
    case (Raise e)
    with body Cons.prems show ?thesis by simp
  next
    case (Break d1)
    with body Cons.prems have eq: "d1 = d'" "tr = tr1" by simp_all
    have "out = Break d' \<or> out = Continue d'" using Break eq by simp
    from resolver_body_provenance [OF body this Cons.prems(2)] eq
    show ?thesis by blast
  next
    case (Continue d1)
    obtain res2 tr2 where rest: "resolver_loop kw reqs (Suc i) rest d1 = (res2, tr2)"
      by (cases "resolver_loop kw reqs (Suc i) rest d1")
    with body Continue Cons.prems(1) have eq: "tr = tr1 @ tr2" "res2 = Inr d'" by simp_all
    have sub: "set tr1 \<subseteq> set tr" "set tr2 \<subseteq> set tr" using eq(1) by auto
    from Cons.IH [OF rest [unfolded eq(2)] Cons.prems(2)]
    consider "map_of d1 R = Some w"
      | "\<exists>j v. Resolve j R (Inr v) \<in> set tr2 \<and> \<not> (kw_exact kw \<and> \<not> dep_exact v)
          \<and> (\<not> isNullDependency v \<or> kw_return_null kw)
          \<and> w = (if isNullDependency v then v\<lparr>dep_version := req_version R\<rparr> else v)"
      | "\<exists>j b. ResolveAll j (Inr b) \<in> set tr2 \<and> truthy b \<and> w \<in> set (batch_dependencies reqs b)"
      by blast
    then show ?thesis
    proof cases
      case 1
      have "out = Break d1 \<or> out = Continue d1" using Continue by simp
      from resolver_body_provenance [OF body this 1] sub(1)
      show ?thesis by blast
    next
      case 2
      with sub(2) show ?thesis by blast
    next
      case 3
      with sub(2) show ?thesis by blast
    qed
  qed
qed

lemma filtered_run:
  "requirements_to_dependencies_dict package_or_environment (manager_of [anything, only_bwa])
     [samtools, bwa] exact_kwds
   = (Inr [(bwa, package_dependency ''A'' bwa True)],
      [Resolve 0 samtools (Inr (package_dependency ''B'' samtools False)),
       Resolve 0 bwa (Inr (package_dependency ''B'' bwa False)),
       Resolve 1 samtools (Inr (NullDependency None ''samtools'')),
       Resolve 1 bwa (Inr (package_dependency ''A'' bwa True))])"
  by (simp add: engine_defs example_defs exact_kwds_def)

subsection \<open>Entries that hold a Null dependency\<close>






section \<open>Properties of the caching layer\<close>

lemma sort_cong_mset: "mset xs = mset ys \<Longrightarrow> sort xs = sort ys"
  by (rule properties_for_sort) simp_all

lemma py_sorted_mset:
  assumes "mset xs = mset ys"
  shows "py_sorted xs = py_sorted ys"
proof -
  from assms have "set xs = set ys" by (rule mset_eq_setD)
  with sort_cong_mset [OF assms] show ?thesis by (simp add: py_sorted_def list_all_iff)
qed

text \<open>The outcome depends on the multiset of the tuples only, whether a hash or an exception.\<close>

lemma hash_dependencies_permutation:
  assumes "mset (map dep_tuple xs) = mset (map dep_tuple ys)"
  shows "hash_dependencies env xs = hash_dependencies env ys"
  using py_sorted_mset [OF assms] by (simp add: hash_dependencies_def)

lemma hash_dependencies_permutation':
  assumes "mset xs = mset ys"
  shows "hash_dependencies env xs = hash_dependencies env ys"
proof -
  from assms have "mset (map dep_tuple xs) = mset (map dep_tuple ys)" by (metis mset_map)
  then show ?thesis by (rule hash_dependencies_permutation)
qed

text \<open>A hash is returned exactly for the lists whose tuples can be compared pairwise.\<close>

lemma hash_dependencies_returns:
  "(\<exists>h. hash_dependencies env xs = Inr h)
   \<longleftrightarrow> (\<forall>x \<in> set xs. \<forall>y \<in> set xs. comparable (dep_tuple x) (dep_tuple y))"
  by (simp add: hash_dependencies_def py_sorted_def list_all_iff)

text \<open>A hash that is returned has eight hexadecimal characters, if the digest has that many.\<close>

lemma hash_dependencies_hex:
  assumes h: "\<forall>s. 8 \<le> length (new_secure_hash env s) \<and> (\<forall>c \<in> set (new_secure_hash env s). is_hex c)"
    and r: "hash_dependencies env xs = Inr hash"
  shows "length hash = 8 \<and> (\<forall>c \<in> set hash. is_hex c)"
proof -
  let ?h = "new_secure_hash env (json_dumps env (sort (map dep_tuple xs)))"
  from r have e: "hash = take 8 ?h"
    by (auto simp: hash_dependencies_def py_sorted_def Let_def split: if_splits)
  from h have "8 \<le> length ?h" "\<forall>c \<in> set ?h. is_hex c" by blast+
  moreover have "set (take 8 ?h) \<subseteq> set ?h" by (rule set_take_subset)
  ultimately show ?thesis unfolding e by auto
qed

lemma example_digest_contract:
  "\<forall>s. 8 \<le> length (new_secure_hash example_env s)
       \<and> (\<forall>c \<in> set (new_secure_hash example_env s). is_hex c)"
proof (intro allI conjI ballI)
  fix s c
  show "8 \<le> length (new_secure_hash example_env s)"
    by (simp add: example_env_def example_digest_def)
  assume "c \<in> set (new_secure_hash example_env s)"
  then have "c = ''0123456789abcdef'' ! (length s mod 16)"
    by (simp add: example_env_def example_digest_def)
  moreover have "length s mod 16 < length ''0123456789abcdef''" by simp
  ultimately show "is_hex c" unfolding is_hex_def by (metis nth_mem)
qed

lemma replicate_eight: "replicate 8 c = [c, c, c, c, c, c, c, c]"
  by (simp add: eval_nat_numeral)

lemma example_path:
  "get_hashed_dependencies_path example_env (manager_of chain)
     [package_dependency ''B'' samtools False, package_dependency ''B'' bwa False]
   = Inr ''/cache/dddddddd''"
  by (simp add: get_hashed_dependencies_path_def hash_dependencies_def py_sorted_def dep_tuple_def
      example_defs example_env_def example_digest_def example_dumps_def
      less_eq_prod_def less_prod_def replicate_eight)

lemma resolution_events:
  "requirements_to_dependencies is_resolvable mgr requirements kw = (res, evs) \<Longrightarrow>
   ev \<in> set evs \<Longrightarrow> (\<exists>c. ev = ResolverCall c) \<or> (\<exists>ds. ev = SetToolDependencies ds)"
  by (auto simp: requirements_to_dependencies_def split: prod.splits sum.splits if_splits)

lemma example_resolution:
  "kw_index kw = None \<Longrightarrow> kw_resolver_type kw = None \<Longrightarrow> \<not> kw_tool_instance kw \<Longrightarrow>
   \<not> kw_exact kw \<Longrightarrow> dependency_resolvers mgr = [anything] \<Longrightarrow>
   requirements_to_dependencies package_or_environment mgr [samtools, bwa] kw
   = (Inr example_resolved, example_calls)"
  by (simp add: requirements_to_dependencies_def engine_defs example_defs example_resolved_def
      example_calls_def)

lemma example_cacheable:
  "filter cacheable (values_of example_resolved)
   = [package_dependency ''B'' samtools False, package_dependency ''B'' bwa False]"
  by (simp add: example_resolved_def values_of_def package_dependency_def)

lemma example_dir:
  "new_secure_hash env = example_digest \<Longrightarrow> json_dumps env = example_dumps \<Longrightarrow>
   abspath_join env = (\<lambda>root h. root @ ''/'' @ h) \<Longrightarrow> tool_dependency_cache_dir mgr = ''/cache'' \<Longrightarrow>
   get_hashed_dependencies_path env mgr (filter cacheable (values_of example_resolved))
   = Inr ''/cache/dddddddd''"
  by (simp add: example_cacheable get_hashed_dependencies_path_def hash_dependencies_def
      py_sorted_def dep_tuple_def
      example_defs example_digest_def example_dumps_def
      less_eq_prod_def less_prod_def replicate_eight)

lemma example_build:
  "build_cache example_env package_or_environment (precaching_manager [anything]) [samtools, bwa]
     no_kwds {}
   = (Inr (), {''/cache/dddddddd''},
      example_calls
      @ [DepBuildCache (package_dependency ''B'' samtools False) ''/cache/dddddddd'',
         DepBuildCache (package_dependency ''B'' bwa False) ''/cache/dddddddd''])"
proof -
  have r: "requirements_to_dependencies package_or_environment (precaching_manager [anything])
      [samtools, bwa] no_kwds = (Inr example_resolved, example_calls)"
    by (rule example_resolution) (simp_all add: no_kwds_def precaching_manager_def manager_of_def)
  have d: "get_hashed_dependencies_path example_env (precaching_manager [anything])
      (filter cacheable (values_of example_resolved)) = Inr ''/cache/dddddddd''"
    by (rule example_dir) (simp_all add: example_env_def precaching_manager_def manager_of_def)
  show ?thesis
    unfolding build_cache_def r Let_def
    by (simp add: d) (simp add: example_cacheable example_env_def)
qed

text \<open>
  The package \<open>samtools\<close> required once with and once without a version: both
  requirements resolve, to dependencies whose tuples tie on the name and then meet
  \<^verbatim>\<open>None\<close> with a string.
\<close>

lemma unversioned_resolution:
  "requirements_to_dependencies package_or_environment (manager_of [anything])
     [samtools, samtools_unversioned] no_kwds
   = (Inr [(samtools, package_dependency ''B'' samtools False),
           (samtools_unversioned, package_dependency ''B'' samtools_unversioned False)],
      [ResolverCall (Resolve 0 samtools (Inr (package_dependency ''B'' samtools False))),
       ResolverCall (Resolve 0 samtools_unversioned
                       (Inr (package_dependency ''B'' samtools_unversioned False)))])"
  by (simp add: requirements_to_dependencies_def engine_defs example_defs samtools_unversioned_def)

lemma unversioned_hash:
  "hash_dependencies env
     [package_dependency ''B'' samtools False, package_dependency ''B'' samtools_unversioned False]
   = Inl TypeError"
  by (simp add: hash_dependencies_def py_sorted_def dep_tuple_def package_dependency_def
      samtools_def samtools_unversioned_def)

lemma unversioned_path:
  "get_hashed_dependencies_path env mgr
     (filter cacheable
        (values_of [(samtools, package_dependency ''B'' samtools False),
                    (samtools_unversioned, package_dependency ''B'' samtools_unversioned False)]))
   = Inl TypeError"
proof -
  have "filter cacheable
        (values_of [(samtools, package_dependency ''B'' samtools False),
                    (samtools_unversioned, package_dependency ''B'' samtools_unversioned False)])
      = [package_dependency ''B'' samtools False,
         package_dependency ''B'' samtools_unversioned False]"
    by (simp add: values_of_def package_dependency_def)
  then show ?thesis by (simp add: get_hashed_dependencies_path_def unversioned_hash)
qed

section \<open>The claims\<close>

text \<open>
  Claim C1 (order of the keys), as the code has it. For distinct requirements, the keys
  of the returned mapping are distinct resolvable requirements, in the order in which the
  calls first recorded them. The calls go through the chain in order and, for one
  resolver, through the requirements in input order; so an entry first recorded by an
  earlier resolver comes before the entries first recorded by later ones, and when all
  the entries were recorded by calls to one resolver, the keys follow the input's
  resolvable order, and they are the whole resolvable list when every requirement has an
  entry.
\<close>

theorem key_order:
  assumes run: "requirements_to_dependencies_dict is_resolvable mgr requirements kw = (Inr d, tr)"
    and uniq: "distinct requirements"
  shows "distinct (keys d)
       \<and> set (keys d) \<subseteq> set (resolvable is_resolvable requirements)
       \<and> keys d = insertion_order (recorded kw (resolvable is_resolvable requirements) tr) []
       \<and> sorted (map call_index tr)
       \<and> (\<forall>i. (\<forall>c \<in> set tr. recorded_by kw (resolvable is_resolvable requirements) c \<noteq> []
                    \<longrightarrow> call_index c = i) \<longrightarrow>
              subseq (keys d) (resolvable is_resolvable requirements)
              \<and> (set (keys d) = set (resolvable is_resolvable requirements) \<longrightarrow>
                   keys d = resolvable is_resolvable requirements))"
proof -
  let ?reqs = "resolvable is_resolvable requirements"
  from run have loop: "resolver_loop kw ?reqs 0 (dependency_resolvers mgr) [] = (Inr d, tr)"
    by (simp add: requirements_to_dependencies_dict_def)
  have dr: "distinct ?reqs" using uniq by (rule distinct_resolvable)
  have k: "keys d = insertion_order (recorded kw ?reqs tr) []"
    using resolver_loop_keys [OF loop] by (simp add: keys_def)
  have dk: "distinct (keys d)" unfolding k by (simp add: distinct_insertion_order)
  have sk: "set (keys d) \<subseteq> set ?reqs"
    unfolding k using resolver_loop_recorded_subset [OF loop] by (simp add: set_insertion_order)
  have one: "subseq (keys d) ?reqs \<and> (set (keys d) = set ?reqs \<longrightarrow> keys d = ?reqs)"
    if h: "\<forall>c \<in> set tr. recorded_by kw ?reqs c \<noteq> [] \<longrightarrow> call_index c = i" for i
  proof -
    have "subseq (recorded kw ?reqs (filter (\<lambda>c. call_index c = i) tr)) ?reqs"
      by (rule resolver_loop_recorded_subseq [OF loop])
    with recorded_filter [OF h] have s: "subseq (recorded kw ?reqs tr) ?reqs" by simp
    with dr have "distinct (recorded kw ?reqs tr)" by (auto simp: subseq_conv_nths)
    then have "keys d = recorded kw ?reqs tr" unfolding k by (simp add: insertion_order_fresh)
    with s have sub: "subseq (keys d) ?reqs" by simp
    have "keys d = ?reqs" if "set (keys d) = set ?reqs"
    proof -
      from that dk dr have "length (keys d) = length ?reqs" by (metis distinct_card)
      with sub show ?thesis by (rule subseq_same_length)
    qed
    with sub show ?thesis by simp
  qed
  have so: "sorted (map call_index tr)" by (rule resolver_loop_sorted [OF loop])
  from dk sk k so one show ?thesis by blast
qed

theorem key_order_witness:
  "map_sum id keys
     (fst (requirements_to_dependencies_dict package_or_environment (manager_of [anything])
             [samtools, bwa] no_kwds))
   = Inr (resolvable package_or_environment [samtools, bwa])"
proof -
  have d: "distinct [samtools, bwa]" by (simp add: example_defs)
  have one: "\<forall>c \<in> set [Resolve 0 samtools (Inr (package_dependency ''B'' samtools False)),
                          Resolve 0 bwa (Inr (package_dependency ''B'' bwa False))].
      recorded_by no_kwds (resolvable package_or_environment [samtools, bwa]) c \<noteq> []
        \<longrightarrow> call_index c = 0"
    by simp
  have all: "set (keys [(samtools, package_dependency ''B'' samtools False),
                        (bwa, package_dependency ''B'' bwa False)])
      = set (resolvable package_or_environment [samtools, bwa])"
    by (simp add: keys_def resolvable_def example_defs)
  note t = key_order [OF single_run d]
  from t [THEN conjunct2, THEN conjunct2, THEN conjunct2, THEN conjunct2, THEN spec, THEN mp, OF one,
      THEN conjunct2, THEN mp, OF all]
  show ?thesis by (simp add: single_run)
qed

text \<open>
  The claim as stated fails when an earlier resolver resolves only a later requirement:
  the chain of \<open>only_bwa\<close> and \<open>anything\<close> on the requirements \<open>samtools\<close>, \<open>bwa\<close> returns
  the keys \<open>bwa\<close>, \<open>samtools\<close>.
\<close>

theorem key_order_counterexample:
  "distinct [samtools, bwa]
   \<and> resolvable package_or_environment [samtools, bwa] = [samtools, bwa]
   \<and> fst (requirements_to_dependencies_dict package_or_environment
            (manager_of [only_bwa, anything]) [samtools, bwa] no_kwds)
     = Inr [(bwa, package_dependency ''A'' bwa True),
            (samtools, package_dependency ''B'' samtools False)]
   \<and> keys [(bwa, package_dependency ''A'' bwa True),
            (samtools, package_dependency ''B'' samtools False)] = [bwa, samtools]
   \<and> [bwa, samtools] \<noteq> [samtools, bwa]"
  by (simp add: example_run) (simp add: example_defs resolvable_def keys_def)

text \<open>
  Claim C2 (batch exclusivity). In any call on distinct requirements: when a whole-set
  call to the resolver at position \<open>i\<close> returns a truthy answer, that answer is the one
  of the whole-set routine of the \<open>i\<close>-th resolver on the resolvable requirements, the
  call is the last call of the run and all calls before it went to earlier resolvers,
  and, the answer having one dependency for each requirement, the returned mapping has
  an entry for every resolvable requirement, the dependency at its position in the
  answer; an answer of another length fails the assertion of line 194.
\<close>

theorem batch_exclusive:
  assumes run: "requirements_to_dependencies_dict is_resolvable mgr requirements kw = (res, tr)"
    and uniq: "distinct requirements"
    and batch: "ResolveAll i (Inr b) \<in> set tr" "truthy b"
  shows "(\<exists>f. i < length (dependency_resolvers mgr)
             \<and> choose_resolve kw (dependency_resolvers mgr ! i) = Some (Some f)
             \<and> f kw (resolvable is_resolvable requirements) = Inr b)
       \<and> (\<exists>pre. tr = pre @ [ResolveAll i (Inr b)] \<and> (\<forall>c \<in> set pre. call_index c < i))
       \<and> (if length (batch_dependencies (resolvable is_resolvable requirements) b)
               = length (resolvable is_resolvable requirements)
           then \<exists>d. res = Inr d \<and> set (keys d) = set (resolvable is_resolvable requirements)
                  \<and> (\<forall>k < length (resolvable is_resolvable requirements).
                        map_of d (resolvable is_resolvable requirements ! k)
                        = Some (batch_dependencies (resolvable is_resolvable requirements) b ! k))
           else res = Inl AssertionError)"
proof -
  let ?reqs = "resolvable is_resolvable requirements"
  let ?chain = "dependency_resolvers mgr"
  from run have loop: "resolver_loop kw ?reqs 0 ?chain [] = (res, tr)"
    by (simp add: requirements_to_dependencies_dict_def)
  have dr: "distinct ?reqs" using uniq by (rule distinct_resolvable)
  from resolver_loop_events [OF loop batch(1)]
  have a: "\<exists>f. i < length ?chain \<and> choose_resolve kw (?chain ! i) = Some (Some f) \<and> f kw ?reqs = Inr b"
    by auto
  from resolver_loop_batch [OF loop batch] obtain pre d0 where
    p: "tr = pre @ [ResolveAll i (Inr b)]" "\<forall>c \<in> set pre. call_index c < i"
    "res = (if length (batch_dependencies ?reqs b) = length ?reqs
            then Inr (record_all ?reqs (batch_dependencies ?reqs b) d0)
            else Inl AssertionError)" by blast
  have c: "if length (batch_dependencies ?reqs b) = length ?reqs
           then \<exists>d. res = Inr d \<and> set (keys d) = set ?reqs
                  \<and> (\<forall>k < length ?reqs. map_of d (?reqs ! k) = Some (batch_dependencies ?reqs b ! k))
           else res = Inl AssertionError"
  proof (cases "length (batch_dependencies ?reqs b) = length ?reqs")
    case True
    with p(3) have r: "res = Inr (record_all ?reqs (batch_dependencies ?reqs b) d0)" by simp
    let ?d = "record_all ?reqs (batch_dependencies ?reqs b) d0"
    have m: "\<forall>k < length ?reqs. map_of ?d (?reqs ! k) = Some (batch_dependencies ?reqs b ! k)"
      using map_of_record_all [OF dr True] by blast
    have "set (keys ?d) \<subseteq> set ?reqs"
      using resolver_loop_keys [OF loop [unfolded r]] resolver_loop_recorded_subset [OF loop]
      by (simp add: set_insertion_order keys_def)
    moreover have "set ?reqs \<subseteq> set (keys ?d)"
    proof
      fix x assume "x \<in> set ?reqs"
      then obtain k where "k < length ?reqs" "x = ?reqs ! k" by (auto simp: in_set_conv_nth)
      with m have "map_of ?d x \<noteq> None" by simp
      then show "x \<in> set (keys ?d)" by (simp add: map_of_eq_None_iff keys_def)
    qed
    ultimately show ?thesis using True r m by auto
  next
    case False
    with p(3) show ?thesis by simp
  qed
  from a p(1,2) c show ?thesis by blast
qed

theorem batch_exclusive_witness:
  "truthy (Dependencies [package_dependency ''M'' samtools False, package_dependency ''M'' bwa False])
   \<and> snd (requirements_to_dependencies_dict package_or_environment (manager_of [merged, anything])
             [samtools, bwa] exact_kwds)
     = [ResolveAll 0 (Inr (Dependencies [package_dependency ''M'' samtools False,
                                         package_dependency ''M'' bwa False]))]
   \<and> map_sum id (\<lambda>d. map (map_of d) [samtools, bwa])
       (fst (requirements_to_dependencies_dict package_or_environment (manager_of [merged, anything])
             [samtools, bwa] exact_kwds))
     = Inr [Some (package_dependency ''M'' samtools False), Some (package_dependency ''M'' bwa False)]"
proof -
  have d: "distinct [samtools, bwa]" by (simp add: example_defs)
  have m: "ResolveAll 0 (Inr (Dependencies [package_dependency ''M'' samtools False,
                                         package_dependency ''M'' bwa False]))
      \<in> set [ResolveAll 0 (Inr (Dependencies [package_dependency ''M'' samtools False,
                                         package_dependency ''M'' bwa False]))]" by simp
  have t: "truthy (Dependencies [package_dependency ''M'' samtools False,
                                 package_dependency ''M'' bwa False])" by simp
  from batch_exclusive [OF merged_run d m t] t
  show ?thesis by (simp add: merged_run)
qed

text \<open>
  Claim C3 (chain precedence and early stop). In any call on a collection of distinct
  requirements: when the single-requirement call of the resolver at position \<open>i\<close> for
  \<open>R\<close> returns a dependency that is not Null and passes the exactness filter, that
  answer is the answer of the \<open>i\<close>-th resolver of the chain, it is the value of \<open>R\<close> in
  the returned mapping, and every call made to a resolver at a later position is a
  single-requirement call for another requirement. And when every resolvable requirement
  has such an answer from a resolver at a position up to \<open>n\<close>, no resolver beyond
  position \<open>n\<close> is called.
\<close>

theorem chain_precedence:
  assumes run: "requirements_to_dependencies_dict is_resolvable mgr requirements kw = (res, tr)"
    and uniq: "distinct requirements"
  shows "(\<forall>i R v. Resolve i R (Inr v) \<in> set tr \<and> \<not> isNullDependency v
              \<and> (kw_exact kw \<longrightarrow> dep_exact v) \<longrightarrow>
            i < length (dependency_resolvers mgr)
            \<and> resolve (dependency_resolvers mgr ! i) kw R = Inr v
            \<and> (\<forall>d. res = Inr d \<longrightarrow> map_of d R = Some v)
            \<and> (\<forall>c \<in> set tr. i < call_index c \<longrightarrow> (\<exists>j r a. c = Resolve j r a \<and> r \<noteq> R)))
       \<and> (\<forall>n. (\<forall>R \<in> set (resolvable is_resolvable requirements).
                  \<exists>j v. j \<le> n \<and> Resolve j R (Inr v) \<in> set tr \<and> \<not> isNullDependency v
                       \<and> (kw_exact kw \<longrightarrow> dep_exact v)) \<longrightarrow>
                (\<forall>c \<in> set tr. call_index c \<le> n))"
proof -
  let ?reqs = "resolvable is_resolvable requirements"
  let ?chain = "dependency_resolvers mgr"
  from run have loop: "resolver_loop kw ?reqs 0 ?chain [] = (res, tr)"
    by (simp add: requirements_to_dependencies_dict_def)
  have dr: "distinct ?reqs" using uniq by (rule distinct_resolvable)
  have dk: "distinct (keys [])" "set (keys []) \<subseteq> set ?reqs" by (simp_all add: keys_def)
  have first: "i < length ?chain \<and> resolve (?chain ! i) kw R = Inr v
      \<and> (\<forall>d. res = Inr d \<longrightarrow> map_of d R = Some v)
      \<and> (\<forall>c \<in> set tr. i < call_index c \<longrightarrow> (\<exists>j r a. c = Resolve j r a \<and> r \<noteq> R))"
    if a: "Resolve i R (Inr v) \<in> set tr" "\<not> isNullDependency v" "kw_exact kw \<longrightarrow> dep_exact v"
    for i R v
  proof -
    from resolver_loop_events [OF loop a(1)]
    have "i < length ?chain" "resolve (?chain ! i) kw R = Inr v" by auto
    with resolver_loop_precedence [OF loop dr dk(1) a] show ?thesis by blast
  qed
  have stop: "\<forall>c \<in> set tr. call_index c \<le> n"
    if "\<forall>R \<in> set ?reqs. \<exists>j v. j \<le> n \<and> Resolve j R (Inr v) \<in> set tr \<and> \<not> isNullDependency v
                       \<and> (kw_exact kw \<longrightarrow> dep_exact v)" for n
  proof -
    from that have "\<forall>R \<in> set ?reqs. (\<exists>v. map_of [] R = Some v \<and> \<not> isNullDependency v)
        \<or> (\<exists>j v. j \<le> n \<and> Resolve j R (Inr v) \<in> set tr \<and> \<not> isNullDependency v
                       \<and> (kw_exact kw \<longrightarrow> dep_exact v))" by blast
    from resolver_loop_early_stop [OF loop dr dk this] show ?thesis .
  qed
  from first stop show ?thesis by blast
qed

theorem chain_precedence_witness:
  "resolve (dependency_resolvers (manager_of [only_bwa, anything]) ! 0) no_kwds bwa
     = Inr (package_dependency ''A'' bwa True)
   \<and> map_sum id (\<lambda>d. map_of d bwa)
       (fst (requirements_to_dependencies_dict package_or_environment
               (manager_of [only_bwa, anything]) [samtools, bwa] no_kwds))
     = Inr (Some (package_dependency ''A'' bwa True))
   \<and> list_all (\<lambda>c. call_index c \<le> 1)
       (snd (requirements_to_dependencies_dict package_or_environment
               (manager_of [only_bwa, anything]) [samtools, bwa] no_kwds))"
proof -
  have d: "distinct [samtools, bwa]" by (simp add: example_defs)
  have m: "Resolve 0 bwa (Inr (package_dependency ''A'' bwa True))
      \<in> set [Resolve 0 samtools (Inr (NullDependency None ''samtools'')),
             Resolve 0 bwa (Inr (package_dependency ''A'' bwa True)),
             Resolve 1 samtools (Inr (package_dependency ''B'' samtools False))]
     \<and> \<not> isNullDependency (package_dependency ''A'' bwa True)
     \<and> (kw_exact no_kwds \<longrightarrow> dep_exact (package_dependency ''A'' bwa True))"
    by (simp add: example_defs isNullDependency_def)
  have all: "\<forall>R \<in> set (resolvable package_or_environment [samtools, bwa]).
       \<exists>j v. j \<le> 1 \<and> Resolve j R (Inr v)
          \<in> set [Resolve 0 samtools (Inr (NullDependency None ''samtools'')),
             Resolve 0 bwa (Inr (package_dependency ''A'' bwa True)),
             Resolve 1 samtools (Inr (package_dependency ''B'' samtools False))]
          \<and> \<not> isNullDependency v \<and> (kw_exact no_kwds \<longrightarrow> dep_exact v)"
    by (auto simp add: example_defs isNullDependency_def resolvable_def)
  note t = chain_precedence [OF example_run d]
  from t [THEN conjunct1, THEN spec, THEN spec, THEN spec, THEN mp, OF m]
    t [THEN conjunct2, THEN spec, THEN mp, OF all]
  show ?thesis by (simp add: example_run list_all_iff)
qed

text \<open>
  Claim C4 (exactness filter), as the code has it. With \<^verbatim>\<open>exact\<close> set, a
  single-requirement answer that is not exact leaves the mapping as it was, so its
  requirement stays as unmet as before for the resolvers that follow; and every entry
  of the returned mapping is either the exact answer of a single-requirement call for
  its requirement (a Null answer with the requested version written into it) or a member
  of a truthy whole-set answer, which lines 191 to 200 record without looking at
  \<^verbatim>\<open>exact\<close>.
\<close>

theorem exactness_filter:
  assumes run: "requirements_to_dependencies_dict is_resolvable mgr requirements kw = (Inr d, tr)"
    and exact: "kw_exact kw"
  shows "(\<forall>r v d0. \<not> dep_exact v \<longrightarrow> record_one kw r v d0 = d0)
       \<and> (\<forall>R w. map_of d R = Some w \<longrightarrow>
             (\<exists>i v. Resolve i R (Inr v) \<in> set tr \<and> dep_exact v \<and> dep_exact w
                    \<and> (\<not> isNullDependency v \<or> kw_return_null kw)
                    \<and> w = (if isNullDependency v then v\<lparr>dep_version := req_version R\<rparr> else v))
             \<or> (\<exists>i b. ResolveAll i (Inr b) \<in> set tr \<and> truthy b
                    \<and> w \<in> set (batch_dependencies (resolvable is_resolvable requirements) b)))"
proof -
  let ?reqs = "resolvable is_resolvable requirements"
  from run have loop: "resolver_loop kw ?reqs 0 (dependency_resolvers mgr) [] = (Inr d, tr)"
    by (simp add: requirements_to_dependencies_dict_def)
  have a: "record_one kw r v d0 = d0" if "\<not> dep_exact v" for r v d0
    using that exact by (simp add: record_one_def)
  have b: "(\<exists>i v. Resolve i R (Inr v) \<in> set tr \<and> dep_exact v \<and> dep_exact w
                    \<and> (\<not> isNullDependency v \<or> kw_return_null kw)
                    \<and> w = (if isNullDependency v then v\<lparr>dep_version := req_version R\<rparr> else v))
             \<or> (\<exists>i b. ResolveAll i (Inr b) \<in> set tr \<and> truthy b
                    \<and> w \<in> set (batch_dependencies ?reqs b))"
    if "map_of d R = Some w" for R w
  proof -
    from resolver_loop_provenance [OF loop that] exact
    consider (item) j v where "Resolve j R (Inr v) \<in> set tr" "dep_exact v"
        "\<not> isNullDependency v \<or> kw_return_null kw"
        "w = (if isNullDependency v then v\<lparr>dep_version := req_version R\<rparr> else v)"
      | (batch) "\<exists>j b. ResolveAll j (Inr b) \<in> set tr \<and> truthy b \<and> w \<in> set (batch_dependencies ?reqs b)"
      by auto
    then show ?thesis
    proof cases
      case item
      from item(2,4) have "dep_exact w" by simp
      with item show ?thesis by blast
    next
      case batch
      then show ?thesis by blast
    qed
  qed
  from a b show ?thesis by blast
qed

theorem exactness_filter_witness:
  "record_one exact_kwds samtools (package_dependency ''B'' samtools False) [] = []
   \<and> fst (requirements_to_dependencies_dict package_or_environment
            (manager_of [anything, only_bwa]) [samtools, bwa] exact_kwds)
     = Inr [(bwa, package_dependency ''A'' bwa True)]
   \<and> dep_exact (package_dependency ''A'' bwa True)"
proof -
  have e: "kw_exact exact_kwds" by (simp add: exact_kwds_def no_kwds_def)
  have n: "\<not> dep_exact (package_dependency ''B'' samtools False)"
    by (simp add: package_dependency_def)
  have m: "map_of [(bwa, package_dependency ''A'' bwa True)] bwa
      = Some (package_dependency ''A'' bwa True)" by simp
  note t = exactness_filter [OF filtered_run e]
  from t [THEN conjunct1, THEN spec, THEN spec, THEN spec, THEN mp, OF n]
    t [THEN conjunct2, THEN spec, THEN spec, THEN mp, OF m]
  show ?thesis by (auto simp: filtered_run)
qed

text \<open>
  The claim as stated fails on the whole-set path: with \<^verbatim>\<open>exact\<close> set, the inexact
  dependencies that \<^verbatim>\<open>resolve_all\<close> of \<open>merged\<close> returns are recorded.
\<close>

theorem exactness_filter_counterexample:
  "kw_exact exact_kwds
   \<and> fst (requirements_to_dependencies_dict package_or_environment
            (manager_of [merged, anything]) [samtools, bwa] exact_kwds)
     = Inr [(samtools, package_dependency ''M'' samtools False),
            (bwa, package_dependency ''M'' bwa False)]
   \<and> \<not> dep_exact (package_dependency ''M'' samtools False)
   \<and> \<not> isNullDependency (package_dependency ''M'' samtools False)"
  by (simp add: merged_run) (simp add: example_defs exact_kwds_def isNullDependency_def)

text \<open>
  Claim C5 (hash determinism) does not hold of the code as it stands. What it says of
  order holds: lists with the same multiset of tuples have the same outcome
  (\<open>hash_dependencies_permutation\<close>), and a hash that is returned has eight hexadecimal
  characters (\<open>hash_dependencies_hex\<close>). But a hash is returned only for a list whose
  tuples can be compared pairwise (\<open>hash_dependencies_returns\<close>). For the dependencies
  of a package that is required once with and once without a version, \<^verbatim>\<open>sorted\<close> at
  line 307 compares \<^verbatim>\<open>None\<close> with a string: \<^verbatim>\<open>hash_dependencies\<close> raises
  \<^verbatim>\<open>TypeError\<close> instead of returning eight characters, and so do \<^verbatim>\<open>build_cache\<close> and
  \<^verbatim>\<open>dependency_shell_commands\<close> on these two requirements, once they are resolved.
\<close>

theorem hash_dependencies_raises:
  "hash_dependencies example_env
     [package_dependency ''B'' samtools False, package_dependency ''B'' samtools_unversioned False]
   = Inl TypeError
   \<and> hash_dependencies example_env
       [package_dependency ''B'' samtools_unversioned False, package_dependency ''B'' samtools False]
     = Inl TypeError
   \<and> fst (build_cache example_env package_or_environment (manager_of [anything])
            [samtools, samtools_unversioned] no_kwds {})
     = Inl TypeError
   \<and> fst (dependency_shell_commands example_env package_or_environment (manager_of [anything])
            [samtools, samtools_unversioned] no_kwds {})
     = Inl TypeError"
proof -
  have p: "mset [package_dependency ''B'' samtools_unversioned False,
                 package_dependency ''B'' samtools False]
      = mset [package_dependency ''B'' samtools False,
              package_dependency ''B'' samtools_unversioned False]"
    by simp
  have a: "hash_dependencies example_env
     [package_dependency ''B'' samtools False, package_dependency ''B'' samtools_unversioned False]
   = Inl TypeError" by (rule unversioned_hash)
  have b: "hash_dependencies example_env
       [package_dependency ''B'' samtools_unversioned False, package_dependency ''B'' samtools False]
     = Inl TypeError"
    using hash_dependencies_permutation' [OF p, of example_env] a by simp
  have c: "fst (build_cache example_env package_or_environment (manager_of [anything])
            [samtools, samtools_unversioned] no_kwds {}) = Inl TypeError"
    unfolding build_cache_def unversioned_resolution Let_def
    by (simp add: unversioned_path)
  have d: "fst (dependency_shell_commands example_env package_or_environment (manager_of [anything])
            [samtools, samtools_unversioned] no_kwds {}) = Inl TypeError"
    unfolding dependency_shell_commands_def unversioned_resolution Let_def
    by (simp add: unversioned_path)
  from a b c d show ?thesis by blast
qed

text \<open>
  Claim C6 (cache idempotence). When the requirements resolve, the hashed directory of
  the cacheable dependencies (\<open>dir\<close>, as line 272 computes it) exists and
  \<^verbatim>\<open>force_rebuild\<close> is not set, \<^verbatim>\<open>build_cache\<close> returns normally, leaves the file system as it found it, and does nothing beyond the
  resolution but write one debug line: it calls no build routine and removes nothing.
  The file system may be the one a first call has left, so that a second call with the
  same resolved dependencies is a no-op.
\<close>

theorem build_cache_idempotent:
  assumes res: "requirements_to_dependencies is_resolvable mgr requirements kw = (Inr resolved, evs)"
    and dir: "get_hashed_dependencies_path env mgr (filter cacheable (values_of resolved)) = Inr dir"
    and present: "dir \<in> fs"
    and keep: "\<not> kw_force_rebuild kw"
  shows "build_cache env is_resolvable mgr requirements kw fs
           = (Inr (), fs,
              evs @ [LogDebug (''Cached dependencies directory '' @ [CHR 0x27] @ dir
                               @ [CHR 0x27] @ '' already exists, skipping build'')])
       \<and> (\<forall>ev \<in> set (snd (snd (build_cache env is_resolvable mgr requirements kw fs))).
             (\<forall>dep p. ev \<noteq> DepBuildCache dep p) \<and> (\<forall>p. ev \<noteq> Rmtree p))"
proof -
  from res dir present keep
  have eq: "build_cache env is_resolvable mgr requirements kw fs
      = (Inr (), fs, evs @ [LogDebug (''Cached dependencies directory '' @ [CHR 0x27] @ dir
            @ [CHR 0x27] @ '' already exists, skipping build'')])"
    by (simp add: build_cache_def Let_def)
  moreover have "(\<forall>dep p. ev \<noteq> DepBuildCache dep p) \<and> (\<forall>p. ev \<noteq> Rmtree p)"
    if "ev \<in> set (evs @ [LogDebug m])" for ev m
    using that resolution_events [OF res, of ev] by auto
  ultimately show ?thesis by auto
qed


theorem build_cache_idempotent_witness:
  "build_cache example_env package_or_environment (precaching_manager [anything]) [samtools, bwa]
     no_kwds {}
   = (Inr (), {''/cache/dddddddd''},
      example_calls
      @ [DepBuildCache (package_dependency ''B'' samtools False) ''/cache/dddddddd'',
         DepBuildCache (package_dependency ''B'' bwa False) ''/cache/dddddddd''])
   \<and> build_cache example_env package_or_environment (precaching_manager [anything]) [samtools, bwa]
       no_kwds {''/cache/dddddddd''}
     = (Inr (), {''/cache/dddddddd''},
        example_calls
        @ [LogDebug (''Cached dependencies directory '' @ [CHR 0x27] @ ''/cache/dddddddd''
                     @ [CHR 0x27] @ '' already exists, skipping build'')])"
proof -
  have r: "requirements_to_dependencies package_or_environment (precaching_manager [anything])
      [samtools, bwa] no_kwds = (Inr example_resolved, example_calls)"
    by (rule example_resolution) (simp_all add: no_kwds_def precaching_manager_def manager_of_def)
  have d: "get_hashed_dependencies_path example_env (precaching_manager [anything])
      (filter cacheable (values_of example_resolved)) = Inr ''/cache/dddddddd''"
    by (rule example_dir)
      (simp_all add: example_env_def precaching_manager_def manager_of_def)
  have p: "''/cache/dddddddd'' \<in> {''/cache/dddddddd''}" by simp
  have k: "\<not> kw_force_rebuild no_kwds" by (simp add: no_kwds_def)
  from build_cache_idempotent [OF r d p k, THEN conjunct1] example_build
  show ?thesis by (rule conjI [rotated])
qed

text \<open>
  Claim C7 (failed removal on a forced rebuild). When the requirements resolve, the
  hashed directory (\<open>dir\<close>, as line 272 computes it) exists, \<^verbatim>\<open>force_rebuild\<close> is set and \<^verbatim>\<open>shutil.rmtree\<close> raises \<open>e\<close>,
  \<^verbatim>\<open>build_cache\<close> attempts the removal, logs the warning and raises \<open>e\<close>, leaving the
  file system as the failed removal left it; no build routine is called.
\<close>

theorem forced_rebuild_failure:
  assumes res: "requirements_to_dependencies is_resolvable mgr requirements kw = (Inr resolved, evs)"
    and dir: "get_hashed_dependencies_path env mgr (filter cacheable (values_of resolved)) = Inr dir"
    and present: "dir \<in> fs"
    and force: "kw_force_rebuild kw"
    and fails: "rmtree env dir fs = (Some e, fs')"
  shows "build_cache env is_resolvable mgr requirements kw fs
           = (Inl e, fs',
              evs @ [Rmtree dir,
                     LogWarning (''Could not delete cached dependencies directory ''
                                 @ [CHR 0x27] @ dir @ [CHR 0x27])])
       \<and> (\<forall>ev \<in> set (snd (snd (build_cache env is_resolvable mgr requirements kw fs))).
             \<forall>dep p. ev \<noteq> DepBuildCache dep p)"
proof -
  from res dir present force fails
  have eq: "build_cache env is_resolvable mgr requirements kw fs
      = (Inl e, fs', evs @ [Rmtree dir, LogWarning (''Could not delete cached dependencies directory ''
            @ [CHR 0x27] @ dir @ [CHR 0x27])])"
    by (simp add: build_cache_def Let_def)
  moreover have "\<forall>dep p. ev \<noteq> DepBuildCache dep p"
    if "ev \<in> set (evs @ [Rmtree dir, LogWarning m])" for ev m
    using that resolution_events [OF res, of ev] by auto
  ultimately show ?thesis by auto
qed


theorem forced_rebuild_failure_witness:
  "build_cache readonly_env package_or_environment (manager_of [anything]) [samtools, bwa]
     force_kwds {''/cache/dddddddd''}
   = (Inl (Exception ''Permission denied''), {''/cache/dddddddd''},
      example_calls
      @ [Rmtree ''/cache/dddddddd'',
         LogWarning (''Could not delete cached dependencies directory '' @ [CHR 0x27]
                     @ ''/cache/dddddddd'' @ [CHR 0x27])])"
proof -
  have r: "requirements_to_dependencies package_or_environment (manager_of [anything])
      [samtools, bwa] force_kwds = (Inr example_resolved, example_calls)"
    by (rule example_resolution) (simp_all add: force_kwds_def no_kwds_def manager_of_def)
  have d: "get_hashed_dependencies_path readonly_env (manager_of [anything])
      (filter cacheable (values_of example_resolved)) = Inr ''/cache/dddddddd''"
    by (rule example_dir)
      (simp_all add: readonly_env_def example_env_def manager_of_def)
  have p: "''/cache/dddddddd'' \<in> {''/cache/dddddddd''}" by simp
  have f: "kw_force_rebuild force_kwds" by (simp add: force_kwds_def)
  have x: "rmtree readonly_env ''/cache/dddddddd'' {''/cache/dddddddd''}
      = (Some (Exception ''Permission denied''), {''/cache/dddddddd''})"
    by (simp add: readonly_env_def)
  from forced_rebuild_failure [OF r d p f x, THEN conjunct1] show ?thesis .
qed

text \<open>
  Claim C8 (null safety). On a manager with an empty chain, \<^verbatim>\<open>find_dep\<close> returns, for
  any name, version, type and options, and without calling anything, the Null dependency
  that carries the requested name and version; so does \<^verbatim>\<open>find_dep\<close> of the
  \<^verbatim>\<open>NullDependencyManager\<close>, whose chain is empty.
\<close>

theorem find_dep_null_safe:
  assumes "dependency_resolvers mgr = []"
  shows "find_dep is_resolvable mgr name version type kw = (Inr (NullDependency version name), [])
       \<and> isNullDependency (NullDependency version name)
       \<and> dep_name (NullDependency version name) = name
       \<and> dep_version (NullDependency version name) = version
       \<and> NullDependencyManager_find_dep name version type kw = NullDependency version name"
  using assms
  by (simp add: find_dep_def requirements_to_dependencies_dict_def values_of_def
      NullDependencyManager_find_dep_def NullDependency_def isNullDependency_def)

theorem find_dep_null_safe_witness:
  "dependency_resolvers NullDependencyManager = []
   \<and> find_dep package_or_environment NullDependencyManager ''samtools'' (Some ''1.9'') ''package'' no_kwds
     = (Inr (NullDependency (Some ''1.9'') ''samtools''), [])
   \<and> dep_name (NullDependency (Some ''1.9'') ''samtools'') = ''samtools''
   \<and> dep_version (NullDependency (Some ''1.9'') ''samtools'') = Some ''1.9''"
proof -
  have e: "dependency_resolvers NullDependencyManager = []"
    by (simp add: NullDependencyManager_def)
  from find_dep_null_safe [OF e, of package_or_environment "''samtools''" "Some ''1.9''" "''package''" no_kwds] e
  show ?thesis by blast
qed






end
